theory Spec2Isabelle
  imports Complex_Main "HOL-Library.Log_Nat"
begin

section \<open>JavaScript numbers\<close>

text \<open>
  A JavaScript \<open>number\<close> is an IEEE 754 binary64 value: a finite double, one of the two
  infinities, or NaN. The finite doubles are modelled by the real numbers they denote
  (the two zeros are identified: no operation of the library tells them apart).
\<close>

datatype number = Fin real | PInf | NInf | NaN

subsection \<open>Rounding to the nearest double, ties to even\<close>

text \<open>Nearest integer, a tie going to the even neighbour.\<close>

definition rne :: "real \<Rightarrow> int" where
  "rne y = (let f = \<lfloor>y\<rfloor>; d = y - of_int f in
     if d < 1/2 then f else if 1/2 < d then f + 1 else if even f then f else f + 1)"

text \<open>The binary exponent \<open>e\<close> of a non-zero \<open>x\<close>: \<open>2^e \<le> |x| < 2^(e+1)\<close>.\<close>

definition bexp :: "real \<Rightarrow> int" where
  "bexp x = (if 1 \<le> \<bar>x\<bar> then bitlen \<lfloor>\<bar>x\<bar>\<rfloor> - 1 else - bitlen (\<lceil>1 / \<bar>x\<bar>\<rceil> - 1))"

text \<open>
  The spacing of the doubles around \<open>x\<close>: 52 fraction bits below the leading bit, and
  the fixed spacing \<open>2^-1074\<close> of the subnormal numbers below \<open>2^-1022\<close>.
\<close>

definition quantum :: "real \<Rightarrow> real" where
  "quantum x = 2 powi (max (bexp x) (- 1022) - 52)"

definition rnd :: "real \<Rightarrow> real" where
  "rnd x = (if x = 0 then 0 else of_int (rne (x / quantum x)) * quantum x)"

text \<open>The result of an arithmetic operation whose exact value is \<open>x\<close>: rounded, and
  an infinity when the rounded value is beyond the largest double.\<close>

definition to_number :: "real \<Rightarrow> number" where
  "to_number x = (let y = rnd x in
     if 2 ^ 1024 \<le> y then PInf else if y \<le> - (2 ^ 1024) then NInf else Fin y)"

definition is_double :: "real \<Rightarrow> bool" where
  "is_double x \<longleftrightarrow> rnd x = x \<and> \<bar>x\<bar> < 2 ^ 1024"

text \<open>What \<open>Math.random()\<close> may return: a double in the half-open interval from 0 to 1.\<close>

definition unit_sample :: "real \<Rightarrow> bool" where
  "unit_sample p \<longleftrightarrow> is_double p \<and> 0 \<le> p \<and> p < 1"

subsection \<open>The operators the library uses\<close>

definition sign_of :: "number \<Rightarrow> int" where
  "sign_of x = (case x of Fin a \<Rightarrow> (if a < 0 then - 1 else if a = 0 then 0 else 1)
     | PInf \<Rightarrow> 1 | NInf \<Rightarrow> - 1 | NaN \<Rightarrow> 0)"

definition js_neg :: "number \<Rightarrow> number" where
  "js_neg x = (case x of Fin a \<Rightarrow> Fin (- a) | PInf \<Rightarrow> NInf | NInf \<Rightarrow> PInf | NaN \<Rightarrow> NaN)"

definition js_add :: "number \<Rightarrow> number \<Rightarrow> number" where
  "js_add x y = (case (x, y) of
       (Fin a, Fin b) \<Rightarrow> to_number (a + b)
     | (Fin a, _) \<Rightarrow> y
     | (_, Fin b) \<Rightarrow> x
     | _ \<Rightarrow> if x = PInf \<and> y = PInf then PInf
            else if x = NInf \<and> y = NInf then NInf else NaN)"

definition js_sub :: "number \<Rightarrow> number \<Rightarrow> number" where
  "js_sub x y = js_add x (js_neg y)"

definition js_mul :: "number \<Rightarrow> number \<Rightarrow> number" where
  "js_mul x y = (case (x, y) of
       (Fin a, Fin b) \<Rightarrow> to_number (a * b)
     | _ \<Rightarrow> if x = NaN \<or> y = NaN \<or> sign_of x * sign_of y = 0 then NaN
            else if 0 < sign_of x * sign_of y then PInf else NInf)"

definition js_lt :: "number \<Rightarrow> number \<Rightarrow> bool" where
  "js_lt x y = (case (x, y) of
       (Fin a, Fin b) \<Rightarrow> a < b
     | (NaN, _) \<Rightarrow> False
     | (_, NaN) \<Rightarrow> False
     | (NInf, _) \<Rightarrow> y \<noteq> NInf
     | (_, PInf) \<Rightarrow> x \<noteq> PInf
     | _ \<Rightarrow> False)"

definition Math_floor :: "number \<Rightarrow> number" where
  "Math_floor x = (case x of Fin a \<Rightarrow> Fin (of_int \<lfloor>a\<rfloor>) | _ \<Rightarrow> x)"

definition Math_ceil :: "number \<Rightarrow> number" where
  "Math_ceil x = (case x of Fin a \<Rightarrow> Fin (of_int \<lceil>a\<rceil>) | _ \<Rightarrow> x)"

definition MAX_SAFE_INTEGER :: number where
  "MAX_SAFE_INTEGER = Fin (2 ^ 53 - 1)"

definition MIN_SAFE_INTEGER :: number where
  "MIN_SAFE_INTEGER = Fin (- (2 ^ 53 - 1))"

definition is_finite :: "number \<Rightarrow> bool" where
  "is_finite x = (case x of Fin a \<Rightarrow> True | _ \<Rightarrow> False)"

definition is_integer :: "number \<Rightarrow> bool" where
  "is_integer x = (case x of Fin a \<Rightarrow> of_int \<lfloor>a\<rfloor> = a | _ \<Rightarrow> False)"

subsection \<open>Exponentiation\<close>

text \<open>
  ECMAScript leaves the value of \<^verbatim>\<open>x ** y\<close> to the engine (an approximation of the
  power), so the operator is a parameter \<open>pw\<close> of the fuzzers that use it. What is
  asked of it is stated by \<open>pow_accurate\<close>: for a base that \<open>Math.random()\<close> may return
  and a natural-number exponent the result is a double, not negative, and within two
  units in the last place of the exact power.
\<close>

definition ulp :: "real \<Rightarrow> real" where
  "ulp x = (if x = 0 then 2 powi (- 1074) else quantum x)"

definition pow_accurate :: "(number \<Rightarrow> number \<Rightarrow> number) \<Rightarrow> bool" where
  "pow_accurate pw \<longleftrightarrow>
     (\<forall>a n. unit_sample a \<longrightarrow>
        (\<exists>w. pw (Fin a) (Fin (real n)) = Fin w \<and> is_double w \<and> 0 \<le> w \<and>
             \<bar>w - a ^ n\<bar> \<le> 2 * ulp (a ^ n)))"

text \<open>
  One operator that is accurate in this sense: the correctly rounded power of a
  finite base to a natural-number exponent (and NaN for all other arguments, which the
  library never passes). An engine need not compute this one.
\<close>

definition rounded_pow :: "number \<Rightarrow> number \<Rightarrow> number" where
  "rounded_pow x y = (case x of
       Fin a \<Rightarrow> (case y of
           Fin b \<Rightarrow> if 0 \<le> b \<and> of_int \<lfloor>b\<rfloor> = b then to_number (a ^ nat \<lfloor>b\<rfloor>) else NaN
         | _ \<Rightarrow> NaN)
     | _ \<Rightarrow> NaN)"

subsection \<open>Strings\<close>

text \<open>A string is its sequence of UTF-16 code units.\<close>

type_synonym jsstring = "nat list"

definition lit :: "string \<Rightarrow> jsstring" where
  "lit s = map of_char s"

text \<open>\<^verbatim>\<open>String.fromCharCode(c)\<close>: the one-unit string of \<open>ToUint16(c)\<close>.\<close>

definition fromCharCode :: "number \<Rightarrow> jsstring" where
  "fromCharCode c = (case c of
       Fin a \<Rightarrow> [nat ((if 0 \<le> a then \<lfloor>a\<rfloor> else \<lceil>a\<rceil>) mod 65536)]
     | _ \<Rightarrow> [0])"

text \<open>\<^verbatim>\<open>parts.join("")\<close>\<close>

definition join_empty :: "jsstring list \<Rightarrow> jsstring" where
  "join_empty parts = concat parts"

section \<open>The raw random source\<close>

text \<open>
  \<open>Math.random()\<close> is the only source of randomness. It is modelled as an infinite
  sequence of samples together with the number of samples drawn so far; every call
  returns the next sample and advances the counter.
\<close>

record rng =
  samples :: "nat \<Rightarrow> real"
  drawn :: nat

definition random :: "rng \<Rightarrow> number \<times> rng" where
  "random r = (Fin (samples r (drawn r)), r\<lparr>drawn := Suc (drawn r)\<rparr>)"

section \<open>Computations that draw samples and may throw\<close>

datatype error = RangeError

type_synonym 'a comp = "rng \<Rightarrow> (error + 'a) \<times> rng"

text \<open>
  A computation returns a value or throws, and leaves a new state either way.
  \<open>andThenC m k\<close> is \<open>m\<close> followed by \<open>k\<close> on its value; a throw of \<open>m\<close> skips \<open>k\<close>.
\<close>

definition ret :: "'a \<Rightarrow> 's \<Rightarrow> ('x + 'a) \<times> 's" where
  "ret v s = (Inr v, s)"

definition throw :: "'x \<Rightarrow> 's \<Rightarrow> ('x + 'a) \<times> 's" where
  "throw e s = (Inl e, s)"

definition andThenC ::
  "('s \<Rightarrow> ('x + 'a) \<times> 's) \<Rightarrow> ('a \<Rightarrow> 's \<Rightarrow> ('x + 'b) \<times> 's) \<Rightarrow> 's \<Rightarrow> ('x + 'b) \<times> 's" where
  "andThenC m k s = (case m s of (Inl e, s') \<Rightarrow> (Inl e, s') | (Inr v, s') \<Rightarrow> k v s')"

section \<open>The Fuzzer class\<close>

text \<open>
  \<^verbatim>\<open>private generator: (prng: number) => A\<close>: the generator receives the sample drawn
  for it and may itself draw further samples by generating from other fuzzers.
\<close>

datatype 'a fuzzer = Fuzzer (generator: "number \<Rightarrow> 'a comp")

text \<open>\<^verbatim>\<open>public [$generate](): A { return this.generator(Math.random()); }\<close>\<close>

definition generate :: "'a fuzzer \<Rightarrow> 'a comp" where
  "generate f r = (case random r of (p, r') \<Rightarrow> generator f p r')"

text \<open>\<^verbatim>\<open>constant(value) { return new Fuzzer(_prng => value); }\<close>\<close>

definition Fuzzer_constant :: "'a \<Rightarrow> 'a fuzzer" where
  "Fuzzer_constant v = Fuzzer (\<lambda>prng. ret v)"

subsection \<open>The map family\<close>

text \<open>
  JavaScript evaluates the arguments of a call from left to right, so
  \<^verbatim>\<open>func(fuzzerA[$generate](), fuzzerB[$generate]())\<close> generates from \<open>fuzzerA\<close> first.
  The transform itself is taken to be a pure function.
\<close>

definition Fuzzer_map :: "'a fuzzer \<Rightarrow> ('a \<Rightarrow> 'b) \<Rightarrow> 'b fuzzer" where
  "Fuzzer_map fuzzer func = Fuzzer (\<lambda>prng.
     andThenC (generate fuzzer) (\<lambda>a. ret (func a)))"

definition Fuzzer_map2 :: "'a fuzzer \<Rightarrow> 'b fuzzer \<Rightarrow> ('a \<Rightarrow> 'b \<Rightarrow> 'c) \<Rightarrow> 'c fuzzer" where
  "Fuzzer_map2 fuzzerA fuzzerB func = Fuzzer (\<lambda>prng.
     andThenC (generate fuzzerA) (\<lambda>a.
     andThenC (generate fuzzerB) (\<lambda>b. ret (func a b))))"

definition Fuzzer_map3 ::
  "'a fuzzer \<Rightarrow> 'b fuzzer \<Rightarrow> 'c fuzzer \<Rightarrow> ('a \<Rightarrow> 'b \<Rightarrow> 'c \<Rightarrow> 'd) \<Rightarrow> 'd fuzzer" where
  "Fuzzer_map3 fuzzerA fuzzerB fuzzerC func = Fuzzer (\<lambda>prng.
     andThenC (generate fuzzerA) (\<lambda>a.
     andThenC (generate fuzzerB) (\<lambda>b.
     andThenC (generate fuzzerC) (\<lambda>c. ret (func a b c)))))"

definition Fuzzer_map4 ::
  "'a fuzzer \<Rightarrow> 'b fuzzer \<Rightarrow> 'c fuzzer \<Rightarrow> 'd fuzzer \<Rightarrow>
   ('a \<Rightarrow> 'b \<Rightarrow> 'c \<Rightarrow> 'd \<Rightarrow> 'e) \<Rightarrow> 'e fuzzer" where
  "Fuzzer_map4 fuzzerA fuzzerB fuzzerC fuzzerD func = Fuzzer (\<lambda>prng.
     andThenC (generate fuzzerA) (\<lambda>a.
     andThenC (generate fuzzerB) (\<lambda>b.
     andThenC (generate fuzzerC) (\<lambda>c.
     andThenC (generate fuzzerD) (\<lambda>d. ret (func a b c d))))))"

definition Fuzzer_map5 ::
  "'a fuzzer \<Rightarrow> 'b fuzzer \<Rightarrow> 'c fuzzer \<Rightarrow> 'd fuzzer \<Rightarrow> 'e fuzzer \<Rightarrow>
   ('a \<Rightarrow> 'b \<Rightarrow> 'c \<Rightarrow> 'd \<Rightarrow> 'e \<Rightarrow> 'f) \<Rightarrow> 'f fuzzer" where
  "Fuzzer_map5 fuzzerA fuzzerB fuzzerC fuzzerD fuzzerE func = Fuzzer (\<lambda>prng.
     andThenC (generate fuzzerA) (\<lambda>a.
     andThenC (generate fuzzerB) (\<lambda>b.
     andThenC (generate fuzzerC) (\<lambda>c.
     andThenC (generate fuzzerD) (\<lambda>d.
     andThenC (generate fuzzerE) (\<lambda>e. ret (func a b c d e)))))))"

definition Fuzzer_map6 ::
  "'a fuzzer \<Rightarrow> 'b fuzzer \<Rightarrow> 'c fuzzer \<Rightarrow> 'd fuzzer \<Rightarrow> 'e fuzzer \<Rightarrow> 'f fuzzer \<Rightarrow>
   ('a \<Rightarrow> 'b \<Rightarrow> 'c \<Rightarrow> 'd \<Rightarrow> 'e \<Rightarrow> 'f \<Rightarrow> 'g) \<Rightarrow> 'g fuzzer" where
  "Fuzzer_map6 fuzzerA fuzzerB fuzzerC fuzzerD fuzzerE fuzzerF func = Fuzzer (\<lambda>prng.
     andThenC (generate fuzzerA) (\<lambda>a.
     andThenC (generate fuzzerB) (\<lambda>b.
     andThenC (generate fuzzerC) (\<lambda>c.
     andThenC (generate fuzzerD) (\<lambda>d.
     andThenC (generate fuzzerE) (\<lambda>e.
     andThenC (generate fuzzerF) (\<lambda>f. ret (func a b c d e f))))))))"

definition Fuzzer_map7 ::
  "'a fuzzer \<Rightarrow> 'b fuzzer \<Rightarrow> 'c fuzzer \<Rightarrow> 'd fuzzer \<Rightarrow> 'e fuzzer \<Rightarrow> 'f fuzzer \<Rightarrow>
   'g fuzzer \<Rightarrow> ('a \<Rightarrow> 'b \<Rightarrow> 'c \<Rightarrow> 'd \<Rightarrow> 'e \<Rightarrow> 'f \<Rightarrow> 'g \<Rightarrow> 'h) \<Rightarrow> 'h fuzzer" where
  "Fuzzer_map7 fuzzerA fuzzerB fuzzerC fuzzerD fuzzerE fuzzerF fuzzerG func =
   Fuzzer (\<lambda>prng.
     andThenC (generate fuzzerA) (\<lambda>a.
     andThenC (generate fuzzerB) (\<lambda>b.
     andThenC (generate fuzzerC) (\<lambda>c.
     andThenC (generate fuzzerD) (\<lambda>d.
     andThenC (generate fuzzerE) (\<lambda>e.
     andThenC (generate fuzzerF) (\<lambda>f.
     andThenC (generate fuzzerG) (\<lambda>g. ret (func a b c d e f g)))))))))"

definition Fuzzer_map8 ::
  "'a fuzzer \<Rightarrow> 'b fuzzer \<Rightarrow> 'c fuzzer \<Rightarrow> 'd fuzzer \<Rightarrow> 'e fuzzer \<Rightarrow> 'f fuzzer \<Rightarrow>
   'g fuzzer \<Rightarrow> 'h fuzzer \<Rightarrow>
   ('a \<Rightarrow> 'b \<Rightarrow> 'c \<Rightarrow> 'd \<Rightarrow> 'e \<Rightarrow> 'f \<Rightarrow> 'g \<Rightarrow> 'h \<Rightarrow> 'i) \<Rightarrow> 'i fuzzer" where
  "Fuzzer_map8 fuzzerA fuzzerB fuzzerC fuzzerD fuzzerE fuzzerF fuzzerG fuzzerH func =
   Fuzzer (\<lambda>prng.
     andThenC (generate fuzzerA) (\<lambda>a.
     andThenC (generate fuzzerB) (\<lambda>b.
     andThenC (generate fuzzerC) (\<lambda>c.
     andThenC (generate fuzzerD) (\<lambda>d.
     andThenC (generate fuzzerE) (\<lambda>e.
     andThenC (generate fuzzerF) (\<lambda>f.
     andThenC (generate fuzzerG) (\<lambda>g.
     andThenC (generate fuzzerH) (\<lambda>h. ret (func a b c d e f g h))))))))))"

subsection \<open>andThen\<close>

text \<open>
  \<^verbatim>\<open>andThen(fuzzer, callback) { return callback(fuzzer[$generate]()); }\<close>

  Unlike the map family there is no \<^verbatim>\<open>new Fuzzer(_prng => ...)\<close> around the call:
  the input fuzzer is generated from while the combinator runs, so the combinator is
  itself a computation over the random source, and what it returns is the fuzzer the
  callback built from that one value.
\<close>

definition Fuzzer_andThen :: "'a fuzzer \<Rightarrow> ('a \<Rightarrow> 'b fuzzer) \<Rightarrow> 'b fuzzer comp" where
  "Fuzzer_andThen fuzzer callback =
     andThenC (generate fuzzer) (\<lambda>a. ret (callback a))"

subsection \<open>Primitive fuzzers\<close>

text \<open>
  The fuzzers that use \<^verbatim>\<open>**\<close> take the engine's operator as their first argument
  \<open>pw\<close>; \<^verbatim>\<open>prng ** 30\<close> is \<open>pw prng (Fin 30)\<close>.

  \<^verbatim>\<open>int = new Fuzzer(prng => {
    const weightedPrng = prng ** 30;
    if (prng < 0.5) { return Math.ceil(weightedPrng * Number.MIN_SAFE_INTEGER); }
    else { return Math.floor(weightedPrng * Number.MAX_SAFE_INTEGER); } })\<close>
\<close>

definition Fuzzer_int :: "(number \<Rightarrow> number \<Rightarrow> number) \<Rightarrow> number fuzzer" where
  "Fuzzer_int pw = Fuzzer (\<lambda>prng.
     let weightedPrng = pw prng (Fin 30) in
     if js_lt prng (Fin (1/2))
     then ret (Math_ceil (js_mul weightedPrng MIN_SAFE_INTEGER))
     else ret (Math_floor (js_mul weightedPrng MAX_SAFE_INTEGER)))"

text \<open>\<^verbatim>\<open>intRange(min, max) {
    return new Fuzzer(prng => Math.floor(prng * (max + 1 - min) + min)); }\<close>\<close>

definition Fuzzer_intRange :: "number \<Rightarrow> number \<Rightarrow> number fuzzer" where
  "Fuzzer_intRange minv maxv = Fuzzer (\<lambda>prng.
     ret (Math_floor (js_add (js_mul prng (js_sub (js_add maxv (Fin 1)) minv)) minv)))"

text \<open>\<^verbatim>\<open>float = new Fuzzer(prng => Fuzzer.int[$generate]() + prng)\<close>\<close>

definition Fuzzer_float :: "(number \<Rightarrow> number \<Rightarrow> number) \<Rightarrow> number fuzzer" where
  "Fuzzer_float pw = Fuzzer (\<lambda>prng.
     andThenC (generate (Fuzzer_int pw)) (\<lambda>i. ret (js_add i prng)))"

text \<open>
  \<^verbatim>\<open>Array(length)\<close> throws a RangeError unless \<open>length\<close> is an integer from 0 to
  \<open>2^32 - 1\<close>; \<^verbatim>\<open>.fill(null)\<close> then puts \<open>null\<close> (here the unit value) into every slot.
\<close>

definition Array_fill_null :: "number \<Rightarrow> unit list comp" where
  "Array_fill_null len = (case len of
       Fin a \<Rightarrow> if of_int \<lfloor>a\<rfloor> = a \<and> 0 \<le> a \<and> a < 2 ^ 32
                then ret (replicate (nat \<lfloor>a\<rfloor>) ())
                else throw RangeError
     | _ \<Rightarrow> throw RangeError)"

text \<open>\<^verbatim>\<open>xs.map(callback)\<close>: the callback runs once per slot, in index order.\<close>

fun Array_map :: "'x list \<Rightarrow> ('x \<Rightarrow> 'a comp) \<Rightarrow> 'a list comp" where
  "Array_map [] callback = ret []"
| "Array_map (x # xs) callback =
     andThenC (callback x) (\<lambda>v.
     andThenC (Array_map xs callback) (\<lambda>vs. ret (v # vs)))"

text \<open>
  \<^verbatim>\<open>string = new Fuzzer(prng => {
    const length = Math.floor(100 * prng);
    return Array(length).fill(null).map(() => {
      const char = Fuzzer.intRange(32, 126)[$generate]();
      return String.fromCharCode(char);
    }).join(""); })\<close>
\<close>

definition Fuzzer_string :: "jsstring fuzzer" where
  "Fuzzer_string = Fuzzer (\<lambda>prng.
     let len = Math_floor (js_mul (Fin 100) prng) in
     andThenC (Array_fill_null len) (\<lambda>slots.
     andThenC (Array_map slots (\<lambda>_.
         andThenC (generate (Fuzzer_intRange (Fin 32) (Fin 126))) (\<lambda>char.
         ret (fromCharCode char)))) (\<lambda>parts.
     ret (join_empty parts))))"

text \<open>
  \<^verbatim>\<open>array(fuzzer) { return new Fuzzer(prng => {
    const length = Math.floor(100 * (prng ** 30));
    return Array(length).fill(null).map(() => fuzzer[$generate]()); }); }\<close>
\<close>

definition Fuzzer_array :: "(number \<Rightarrow> number \<Rightarrow> number) \<Rightarrow> 'a fuzzer \<Rightarrow> 'a list fuzzer" where
  "Fuzzer_array pw fuzzer = Fuzzer (\<lambda>prng.
     let len = Math_floor (js_mul (Fin 100) (pw prng (Fin 30))) in
     andThenC (Array_fill_null len) (\<lambda>slots.
     Array_map slots (\<lambda>_. generate fuzzer)))"

section \<open>The test harness\<close>

text \<open>
  A check function may change the state of the test file (a counter, a log) and
  returns normally or throws. A test body runs on that state and the random source,
  and fails with what a generator or the check function threw.
\<close>

datatype 'e failure = GeneratorThrew error | CheckThrew 'e

type_synonym ('u, 'e) check = "'u \<Rightarrow> ('e + unit) \<times> 'u"

type_synonym ('u, 'e) test_body = "'u \<times> rng \<Rightarrow> ('e failure + unit) \<times> ('u \<times> rng)"


definition run_check :: "('u, 'e) check \<Rightarrow> ('u, 'e) test_body" where
  "run_check c s = (case s of (u, r) \<Rightarrow>
     (case c u of (Inl e, u') \<Rightarrow> (Inl (CheckThrew e), (u', r))
                | (Inr _, u') \<Rightarrow> (Inr (), (u', r))))"

text \<open>
  The host's \<^verbatim>\<open>test(name, fn)\<close> registers a named test body for later execution.
\<close>

type_synonym ('u, 'e) registry = "(jsstring \<times> ('u, 'e) test_body) list"

definition test :: "jsstring \<Rightarrow> ('u, 'e) test_body \<Rightarrow> ('u, 'e) registry \<Rightarrow> ('u, 'e) registry" where
  "test name body reg = reg @ [(name, body)]"

definition TEST_PASSES :: nat where
  "TEST_PASSES = 100"

text \<open>
  \<^verbatim>\<open>for (let i = start; i < n; i += 1) { pass }\<close>, where the pass does not read \<open>i\<close>;
  a throw of the pass leaves the loop.
\<close>

function for_loop ::
  "nat \<Rightarrow> nat \<Rightarrow> ('s \<Rightarrow> ('x + unit) \<times> 's) \<Rightarrow> 's \<Rightarrow> ('x + unit) \<times> 's" where
  "for_loop i n pass s =
     (if i < n
      then (case pass s of (Inl e, s') \<Rightarrow> (Inl e, s')
                         | (Inr _, s') \<Rightarrow> for_loop (i + 1) n pass s')
      else (Inr (), s))"
  by pat_completeness auto
termination
  by (relation "measure (\<lambda>(i, n, pass, s). n - i)") auto

subsection \<open>Batched tests\<close>




subsection \<open>Explained tests\<close>

text \<open>
  \<^verbatim>\<open>fuzzExplained(fuzzer, desc, func) {
    for (let i = 0; i < TEST_PASSES; i += 1) {
      const a = fuzzer[$generate]();
      test(`${desc}\nValue #1: ${a}`, () => { func(a); }); } }\<close>

  The loop runs when the function is called: it works on the registry and the random
  source. The template literal turns each value into a string with the language's
  \<open>ToString\<close>, which is a parameter here.
\<close>

definition register :: "jsstring \<Rightarrow> ('u, 'e) test_body \<Rightarrow>
    ('u, 'e) registry \<times> rng \<Rightarrow> (error + unit) \<times> (('u, 'e) registry \<times> rng)" where
  "register name body s = (case s of (reg, r) \<Rightarrow> (Inr (), (test name body reg, r)))"

definition generate_now :: "'a comp \<Rightarrow>
    ('u, 'e) registry \<times> rng \<Rightarrow> (error + 'a) \<times> (('u, 'e) registry \<times> rng)" where
  "generate_now m s = (case s of (reg, r) \<Rightarrow>
     (case m r of (res, r') \<Rightarrow> (res, (reg, r'))))"

definition fuzzExplained ::
  "('a \<Rightarrow> jsstring) \<Rightarrow> 'a fuzzer \<Rightarrow> jsstring \<Rightarrow> ('a \<Rightarrow> ('u, 'e) check) \<Rightarrow>
   ('u, 'e) registry \<times> rng \<Rightarrow> (error + unit) \<times> (('u, 'e) registry \<times> rng)" where
  "fuzzExplained toStringA fuzzer desc func =
     for_loop 0 TEST_PASSES
       (andThenC (generate_now (generate fuzzer)) (\<lambda>a.
        register (desc @ lit (CHR 0x0A # ''Value #1: '') @ toStringA a)
          (run_check (func a))))"

definition fuzz2Explained ::
  "('a \<Rightarrow> jsstring) \<Rightarrow> ('b \<Rightarrow> jsstring) \<Rightarrow> 'a fuzzer \<Rightarrow> 'b fuzzer \<Rightarrow> jsstring \<Rightarrow>
   ('a \<Rightarrow> 'b \<Rightarrow> ('u, 'e) check) \<Rightarrow>
   ('u, 'e) registry \<times> rng \<Rightarrow> (error + unit) \<times> (('u, 'e) registry \<times> rng)" where
  "fuzz2Explained toStringA toStringB fuzzerA fuzzerB desc func =
     for_loop 0 TEST_PASSES
       (andThenC (generate_now (generate fuzzerA)) (\<lambda>a.
        andThenC (generate_now (generate fuzzerB)) (\<lambda>b.
        register (desc @ lit (CHR 0x0A # ''Value #1: '') @ toStringA a
                       @ lit (CHR 0x0A # ''Value #2: '') @ toStringB b)
          (run_check (func a b)))))"

definition fuzz3Explained ::
  "('a \<Rightarrow> jsstring) \<Rightarrow> ('b \<Rightarrow> jsstring) \<Rightarrow> ('c \<Rightarrow> jsstring) \<Rightarrow>
   'a fuzzer \<Rightarrow> 'b fuzzer \<Rightarrow> 'c fuzzer \<Rightarrow> jsstring \<Rightarrow>
   ('a \<Rightarrow> 'b \<Rightarrow> 'c \<Rightarrow> ('u, 'e) check) \<Rightarrow>
   ('u, 'e) registry \<times> rng \<Rightarrow> (error + unit) \<times> (('u, 'e) registry \<times> rng)" where
  "fuzz3Explained toStringA toStringB toStringC fuzzerA fuzzerB fuzzerC desc func =
     for_loop 0 TEST_PASSES
       (andThenC (generate_now (generate fuzzerA)) (\<lambda>a.
        andThenC (generate_now (generate fuzzerB)) (\<lambda>b.
        andThenC (generate_now (generate fuzzerC)) (\<lambda>c.
        register (desc @ lit (CHR 0x0A # ''Value #1: '') @ toStringA a
                       @ lit (CHR 0x0A # ''Value #2: '') @ toStringB b
                       @ lit (CHR 0x0A # ''Value #3: '') @ toStringC c)
          (run_check (func a b c))))))"

section \<open>Notions used to state the properties\<close>

text \<open>The random source as a computation leaves it.\<close>

definition after :: "'a comp \<Rightarrow> rng \<Rightarrow> rng" where
  "after m r = snd (m r)"

text \<open>Two computations one after the other, returning both values.\<close>

definition both :: "'a comp \<Rightarrow> 'b comp \<Rightarrow> ('a \<times> 'b) comp" where
  "both m n = andThenC m (\<lambda>a. andThenC n (\<lambda>b. ret (a, b)))"

text \<open>
  A check function that records every value it is called with and throws what the
  verdict says, if anything. The state of the test file is the list of recorded values.
\<close>

definition logging_check :: "('a \<Rightarrow> 'e option) \<Rightarrow> 'a \<Rightarrow> ('a list, 'e) check" where
  "logging_check verdict v seen =
     ((case verdict v of None \<Rightarrow> Inr () | Some e \<Rightarrow> Inl e), seen @ [v])"


definition explained :: "'a comp \<Rightarrow> ('a \<Rightarrow> jsstring) \<Rightarrow> ('a \<Rightarrow> ('u, 'e) check) \<Rightarrow>
    ('u, 'e) registry \<times> rng \<Rightarrow> (error + unit) \<times> (('u, 'e) registry \<times> rng)" where
  "explained G name C =
     for_loop 0 TEST_PASSES
       (andThenC (generate_now G) (\<lambda>v. register (name v) (run_check (C v))))"

section \<open>Facts about rounding\<close>

subsection \<open>The binary exponent\<close>

lemma powi_nat: "0 \<le> k \<Longrightarrow> (2::real) powi k = 2 ^ nat k"
  by (simp add: power_int_def)

lemma powi_neg: "0 \<le> k \<Longrightarrow> (2::real) powi (- k) = 1 / 2 ^ nat k"
  by (simp add: power_int_def field_simps)

lemma bexp_ge1:
  fixes a :: real
  assumes "1 \<le> a"
  shows "2 powi (bitlen \<lfloor>a\<rfloor> - 1) \<le> a \<and> a < 2 powi (bitlen \<lfloor>a\<rfloor> - 1 + 1)"
proof -
  define n where "n = \<lfloor>a\<rfloor>"
  have n1: "1 \<le> n" using assms by (simp add: n_def le_floor_iff)
  then have npos: "0 < n" by simp
  have b1: "1 \<le> bitlen n" using npos by (simp add: bitlen_alt_def)
  from bitlen_bounds[OF npos] have lo: "2 ^ nat (bitlen n - 1) \<le> n" and hi: "n < 2 ^ nat (bitlen n)"
    by auto
  have "(2::real) ^ nat (bitlen n - 1) \<le> of_int n"
    using lo by (metis of_int_le_iff of_int_numeral of_int_power)
  also have "\<dots> \<le> a" by (simp add: n_def)
  finally have A: "2 powi (bitlen n - 1) \<le> a"
    using b1 by (simp add: powi_nat)
  have "n + 1 \<le> 2 ^ nat (bitlen n)" using hi by simp
  then have "of_int (n + 1) \<le> (2::real) ^ nat (bitlen n)"
    by (metis of_int_le_iff of_int_numeral of_int_power)
  moreover have "a < of_int (n + 1)" by (simp add: n_def)
  ultimately have "a < 2 ^ nat (bitlen n)" by linarith
  then have B: "a < 2 powi (bitlen n - 1 + 1)"
    using b1 by (simp add: powi_nat)
  show ?thesis using A B by (simp add: n_def)
qed

lemma bexp_lt1:
  fixes a :: real
  assumes "0 < a" "a < 1"
  shows "2 powi (- bitlen (\<lceil>1 / a\<rceil> - 1)) \<le> a \<and> a < 2 powi (- bitlen (\<lceil>1 / a\<rceil> - 1) + 1)"
proof -
  define y where "y = 1 / a"
  define m where "m = \<lceil>y\<rceil> - 1"
  have y1: "1 < y" using assms by (simp add: y_def)
  have ay: "a = 1 / y" by (simp add: y_def)
  have "2 \<le> \<lceil>y\<rceil>" using y1 by (simp add: le_ceiling_iff)
  then have mpos: "0 < m" by (simp add: m_def)
  have b1: "1 \<le> bitlen m" using mpos by (simp add: bitlen_alt_def)
  from bitlen_bounds[OF mpos] have lo: "2 ^ nat (bitlen m - 1) \<le> m" and hi: "m < 2 ^ nat (bitlen m)"
    by auto
  have my: "of_int m < y" unfolding m_def using ceiling_correct[of y] by simp
  have ym: "y \<le> of_int (m + 1)" unfolding m_def by simp
  have "(2::real) ^ nat (bitlen m - 1) \<le> of_int m"
    using lo by (metis of_int_le_iff of_int_numeral of_int_power)
  then have lo': "(2::real) ^ nat (bitlen m - 1) < y" using my by linarith
  have "m + 1 \<le> 2 ^ nat (bitlen m)" using hi by simp
  then have "of_int (m + 1) \<le> (2::real) ^ nat (bitlen m)"
    by (metis of_int_le_iff of_int_numeral of_int_power)
  then have hi': "y \<le> 2 ^ nat (bitlen m)" using ym by linarith
  have A: "2 powi (- bitlen m) \<le> a"
    using hi' y1 b1 by (simp add: powi_neg ay field_simps)
  have "- bitlen m + 1 = - (bitlen m - 1)" by simp
  then have "(2::real) powi (- bitlen m + 1) = 1 / 2 ^ nat (bitlen m - 1)"
    using b1 powi_neg[of "bitlen m - 1"] by simp
  moreover have "1 / y < 1 / 2 ^ nat (bitlen m - 1)"
    using lo' y1 by (intro divide_strict_left_mono) auto
  ultimately have B: "a < 2 powi (- bitlen m + 1)"
    by (simp only: ay)
  show ?thesis using A B by (simp add: m_def y_def)
qed

lemma bexp_bounds:
  assumes "x \<noteq> 0"
  shows "2 powi (bexp x) \<le> \<bar>x\<bar> \<and> \<bar>x\<bar> < 2 powi (bexp x + 1)"
proof (cases "1 \<le> \<bar>x\<bar>")
  case True
  then show ?thesis using bexp_ge1[of "\<bar>x\<bar>"] by (simp add: bexp_def)
next
  case False
  then have "0 < \<bar>x\<bar>" "\<bar>x\<bar> < 1" using assms by auto
  then show ?thesis using bexp_lt1[of "\<bar>x\<bar>"] False by (simp add: bexp_def)
qed

lemma powi_less_cancel: "(2::real) powi a < 2 powi b \<Longrightarrow> a < b"
  using power_int_increasing[of b a "2::real"] by (cases "a < b") auto

lemma bexp_unique:
  assumes "2 powi e \<le> \<bar>x\<bar>" "\<bar>x\<bar> < 2 powi (e + 1)"
  shows "bexp x = e"
proof -
  have "(0::real) < 2 powi e" by simp
  with assms(1) have "0 < \<bar>x\<bar>" by linarith
  then have "x \<noteq> 0" by auto
  from bexp_bounds[OF this] have 1: "2 powi (bexp x) \<le> \<bar>x\<bar>" and 2: "\<bar>x\<bar> < 2 powi (bexp x + 1)"
    by auto
  have "(2::real) powi e < 2 powi (bexp x + 1)" using assms(1) 2 by linarith
  then have a: "e < bexp x + 1" by (rule powi_less_cancel)
  have "(2::real) powi (bexp x) < 2 powi (e + 1)" using assms(2) 1 by linarith
  then have b: "bexp x < e + 1" by (rule powi_less_cancel)
  show ?thesis using a b by simp
qed

lemma bexp_minus: "bexp (- x) = bexp x"
  by (simp add: bexp_def)

lemma bexp_mono:
  assumes "0 < x" "x \<le> y"
  shows "bexp x \<le> bexp y"
proof (rule ccontr)
  assume "\<not> bexp x \<le> bexp y"
  then have "bexp y + 1 \<le> bexp x" by simp
  then have "(2::real) powi (bexp y + 1) \<le> 2 powi (bexp x)"
    by (intro power_int_increasing) auto
  moreover have "y < 2 powi (bexp y + 1)" using bexp_bounds[of y] assms by auto
  moreover have "2 powi (bexp x) \<le> x" using bexp_bounds[of x] assms by auto
  ultimately show False using assms by linarith
qed

subsection \<open>Rounding to an integer\<close>

lemma rne_of_int: "rne (of_int k) = k"
  by (simp add: rne_def)

lemma rne_bounds: "\<lfloor>y\<rfloor> \<le> rne y \<and> rne y \<le> \<lfloor>y\<rfloor> + 1"
  by (simp add: rne_def Let_def)

lemma rne_mono:
  assumes "x \<le> y"
  shows "rne x \<le> rne y"
proof -
  have "\<lfloor>x\<rfloor> \<le> \<lfloor>y\<rfloor>" using assms by (rule floor_mono)
  then consider "\<lfloor>x\<rfloor> = \<lfloor>y\<rfloor>" | "\<lfloor>x\<rfloor> + 1 \<le> \<lfloor>y\<rfloor>" by linarith
  then show ?thesis
  proof cases
    case 1
    then show ?thesis using assms by (auto simp: rne_def Let_def)
  next
    case 2
    then show ?thesis using rne_bounds[of x] rne_bounds[of y] by linarith
  qed
qed

lemma rne_minus: "rne (- x) = - rne x"
proof (cases "x = of_int \<lfloor>x\<rfloor>")
  case True
  then obtain k where "x = of_int k" ..
  then show ?thesis by (simp add: rne_def flip: of_int_minus)
next
  case False
  then have c: "\<lceil>x\<rceil> = \<lfloor>x\<rfloor> + 1" by (simp add: ceiling_altdef)
  have f: "\<lfloor>- x\<rfloor> = - \<lfloor>x\<rfloor> - 1" using c by (simp add: floor_minus)
  show ?thesis unfolding rne_def Let_def f by auto
qed

lemma rne_eqI:
  assumes "\<bar>y - of_int k\<bar> < 1/2"
  shows "rne y = k"
proof (cases "of_int k \<le> y")
  case True
  then have "\<lfloor>y\<rfloor> = k" using assms by (intro floor_unique) auto
  then show ?thesis using assms True by (simp add: rne_def)
next
  case False
  then have "\<lfloor>y\<rfloor> = k - 1" using assms by (intro floor_unique) auto
  then show ?thesis using assms False by (simp add: rne_def)
qed

subsection \<open>Rounding to a double is odd, monotone and keeps the binade\<close>

lemma quantum_minus: "quantum (- x) = quantum x"
  by (simp add: quantum_def bexp_minus)

lemma quantum_pos: "0 < quantum x"
  by (simp add: quantum_def)

lemma rnd_minus: "rnd (- x) = - rnd x"
  by (simp add: rnd_def quantum_minus rne_minus)

lemma rnd_zero: "rnd 0 = 0"
  by (simp add: rnd_def)

lemma rnd_nonneg: "0 \<le> x \<Longrightarrow> 0 \<le> rnd x"
proof -
  assume "0 \<le> x"
  then have "0 \<le> x / quantum x" using quantum_pos[of x] by simp
  then have "rne 0 \<le> rne (x / quantum x)" by (rule rne_mono)
  then have "0 \<le> rne (x / quantum x)" using rne_of_int[of 0] by simp
  then show ?thesis using quantum_pos[of x] by (simp add: rnd_def)
qed

lemma rnd_le_pow:
  assumes "0 < x"
  shows "rnd x \<le> 2 powi (max (bexp x) (- 1022) + 1)"
proof -
  let ?E = "max (bexp x) (- 1022)"
  have q: "quantum x = 2 powi (?E - 52)" by (simp add: quantum_def)
  have "x < 2 powi (bexp x + 1)" using bexp_bounds[of x] assms by auto
  also have "\<dots> \<le> 2 powi (?E + 1)" by (intro power_int_increasing) auto
  finally have x: "x < 2 powi (?E + 1)" .
  have "53 + (?E - 52) = ?E + 1" by linarith
  moreover have "(2::real) powi (53 + (?E - 52)) = 2 powi 53 * 2 powi (?E - 52)"
    by (rule power_int_add) simp
  ultimately have e: "(2::real) powi (?E + 1) = 2 powi 53 * quantum x" by (simp only: q)
  have "x / quantum x \<le> 2 powi 53"
    using x quantum_pos[of x] unfolding e by (simp add: field_simps)
  then have "rne (x / quantum x) \<le> rne (2 powi 53)" by (rule rne_mono)
  moreover have "rne (2 powi 53) = 2 ^ 53" using rne_of_int[of "2 ^ 53"] by simp
  ultimately have "rne (x / quantum x) \<le> 2 ^ 53" by simp
  then have "real_of_int (rne (x / quantum x)) \<le> 2 powi 53"
    by simp
  then have "of_int (rne (x / quantum x)) * quantum x \<le> 2 powi 53 * quantum x"
    using quantum_pos[of x] by (simp add: mult_right_mono)
  then show ?thesis using assms unfolding e by (simp add: rnd_def)
qed

lemma rnd_ge_pow:
  assumes "0 < x" "- 1022 \<le> bexp x"
  shows "2 powi (bexp x) \<le> rnd x"
proof -
  have q: "quantum x = 2 powi (bexp x - 52)" using assms(2) by (simp add: quantum_def max_def)
  have x: "2 powi (bexp x) \<le> x" using bexp_bounds[of x] assms by auto
  have "52 + (bexp x - 52) = bexp x" by linarith
  moreover have "(2::real) powi (52 + (bexp x - 52)) = 2 powi 52 * 2 powi (bexp x - 52)"
    by (rule power_int_add) simp
  ultimately have e: "(2::real) powi (bexp x) = 2 powi 52 * quantum x" by (simp only: q)
  have "2 powi 52 \<le> x / quantum x"
    using x quantum_pos[of x] unfolding e by (simp add: field_simps)
  then have "rne (2 powi 52) \<le> rne (x / quantum x)" by (rule rne_mono)
  moreover have "rne (2 powi 52) = 2 ^ 52" using rne_of_int[of "2 ^ 52"] by simp
  ultimately have "2 ^ 52 \<le> rne (x / quantum x)" by simp
  then have "2 powi 52 \<le> real_of_int (rne (x / quantum x))"
    by simp
  then have "2 powi 52 * quantum x \<le> of_int (rne (x / quantum x)) * quantum x"
    using quantum_pos[of x] by (simp add: mult_right_mono)
  then show ?thesis using assms unfolding e by (simp add: rnd_def)
qed

lemma rnd_mono_pos:
  assumes "0 < x" "x \<le> y"
  shows "rnd x \<le> rnd y"
proof -
  let ?Ex = "max (bexp x) (- 1022)" and ?Ey = "max (bexp y) (- 1022)"
  have ypos: "0 < y" using assms by simp
  have "bexp x \<le> bexp y" using assms by (rule bexp_mono)
  then consider "?Ex = ?Ey" | "?Ex + 1 \<le> ?Ey" by linarith
  then show ?thesis
  proof cases
    case 1
    then have q: "quantum x = quantum y" by (simp add: quantum_def)
    have "x / quantum y \<le> y / quantum y"
      using assms quantum_pos[of y] by (simp add: divide_right_mono)
    then have "rne (x / quantum y) \<le> rne (y / quantum y)" by (rule rne_mono)
    then have "real_of_int (rne (x / quantum y)) * quantum y
        \<le> real_of_int (rne (y / quantum y)) * quantum y"
      using quantum_pos[of y] by (simp add: mult_right_mono)
    then show ?thesis using assms ypos by (simp add: rnd_def q)
  next
    case 2
    then have hy: "- 1022 \<le> bexp y" and Ey: "?Ey = bexp y" by auto
    have "rnd x \<le> 2 powi (?Ex + 1)" using assms(1) by (rule rnd_le_pow)
    also have "\<dots> \<le> 2 powi ?Ey" using 2 by (intro power_int_increasing) auto
    also have "\<dots> = 2 powi (bexp y)" by (simp only: Ey)
    also have "\<dots> \<le> rnd y" using ypos hy by (rule rnd_ge_pow)
    finally show ?thesis .
  qed
qed

lemma rnd_mono:
  assumes "x \<le> y"
  shows "rnd x \<le> rnd y"
proof -
  consider "0 < x" | "x \<le> 0" "0 \<le> y" | "y < 0" by linarith
  then show ?thesis
  proof cases
    case 1
    then show ?thesis using assms by (rule rnd_mono_pos)
  next
    case 2
    have "0 \<le> rnd (- x)" using 2(1) by (intro rnd_nonneg) simp
    then have "rnd x \<le> 0" by (simp add: rnd_minus)
    moreover have "0 \<le> rnd y" using 2(2) by (rule rnd_nonneg)
    ultimately show ?thesis by simp
  next
    case 3
    then have "0 < - y" "- y \<le> - x" using assms by auto
    then have "rnd (- y) \<le> rnd (- x)" by (rule rnd_mono_pos)
    then show ?thesis by (simp add: rnd_minus)
  qed
qed

text \<open>The largest double below 1 is \<open>1 - 2^-53\<close>.\<close>

lemma double_below_one:
  assumes "rnd p = p" "p < 1"
  shows "p \<le> 1 - 1 / 2 ^ 53"
proof (cases "p < 1/2")
  case True
  have "(1::real) / 2 ^ 53 \<le> 1 / 2 ^ 1" by (intro divide_left_mono power_increasing) auto
  then show ?thesis using True by simp
next
  case False
  then have "2 powi (- 1) \<le> \<bar>p\<bar>" "\<bar>p\<bar> < 2 powi (- 1 + 1)" using assms(2) by auto
  then have "bexp p = - 1" by (rule bexp_unique)
  then have q: "quantum p = 2 powi (- 53)" by (simp add: quantum_def)
  define k where "k = rne (p / quantum p)"
  have p: "p = of_int k * (1 / 2 ^ 53)"
    using assms(1) False by (simp add: rnd_def k_def q power_int_minus_divide)
  then have "real_of_int k < 2 ^ 53" using assms(2) by (simp add: field_simps)
  then have "k < 2 ^ 53" by simp
  then have "k \<le> 2 ^ 53 - 1" by simp
  then have "real_of_int k \<le> real_of_int (2 ^ 53 - 1)" by (simp only: of_int_le_iff)
  then have "real_of_int k \<le> 2 ^ 53 - 1" by simp
  then have "of_int k * (1 / 2 ^ 53) \<le> (2 ^ 53 - 1) * (1 / 2 ^ 53 :: real)"
    by (intro mult_right_mono) auto
  then show ?thesis using p by (simp add: field_simps)
qed

text \<open>Evaluating \<open>rnd\<close> away from a tie: the exponent and the rounded quotient are given.\<close>

lemma rnd_eqI:
  assumes "2 powi e \<le> \<bar>x\<bar>" "\<bar>x\<bar> < 2 powi (e + 1)" "- 1022 \<le> e"
    and "\<bar>x / 2 powi (e - 52) - of_int k\<bar> < 1/2"
  shows "rnd x = of_int k * 2 powi (e - 52)"
proof -
  have e: "bexp x = e" using assms(1,2) by (rule bexp_unique)
  have "(0::real) < 2 powi e" by simp
  with assms(1) have "0 < \<bar>x\<bar>" by linarith
  then have "x \<noteq> 0" by auto
  moreover have "quantum x = 2 powi (e - 52)" using assms(3) by (simp add: quantum_def e max_def)
  moreover have "rne (x / 2 powi (e - 52)) = k" using assms(4) by (rule rne_eqI)
  ultimately show ?thesis by (simp add: rnd_def)
qed

subsection \<open>Results of operations\<close>

lemma below_max: "\<bar>x\<bar> \<le> 2 ^ 53 \<Longrightarrow> \<bar>x::real\<bar> < 2 ^ 1024"
proof -
  assume "\<bar>x\<bar> \<le> 2 ^ 53"
  moreover have "(2::real) ^ 53 < 2 ^ 1024" by (rule power_strict_increasing) auto
  ultimately show ?thesis by linarith
qed

lemma to_number_fix: "rnd x = x \<Longrightarrow> \<bar>x\<bar> < 2 ^ 1024 \<Longrightarrow> to_number x = Fin x"
  by (auto simp: to_number_def Let_def)

lemma to_number_eval: "rnd x = y \<Longrightarrow> \<bar>y\<bar> \<le> 2 ^ 53 \<Longrightarrow> to_number x = Fin y"
  using below_max[of y] by (auto simp: to_number_def Let_def)

lemma to_number_between:
  assumes "lo \<le> x" "x \<le> hi" "rnd lo = lo" "rnd hi = hi" "- (2 ^ 1024) < lo" "hi < 2 ^ 1024"
  shows "to_number x = Fin (rnd x) \<and> lo \<le> rnd x \<and> rnd x \<le> hi"
proof -
  have "rnd lo \<le> rnd x" using assms(1) by (rule rnd_mono)
  moreover have "rnd x \<le> rnd hi" using assms(2) by (rule rnd_mono)
  ultimately have b: "lo \<le> rnd x" "rnd x \<le> hi" using assms(3,4) by auto
  then have "\<not> 2 ^ 1024 \<le> rnd x" "\<not> rnd x \<le> - (2 ^ 1024)" using assms(5,6) by auto
  then show ?thesis using b by (simp add: to_number_def Let_def)
qed

lemma to_number_within:
  assumes "lo \<le> x" "x \<le> hi" "rnd lo = lo'" "rnd hi = hi'" "- (2 ^ 53) \<le> lo'" "hi' \<le> 2 ^ 53"
  shows "to_number x = Fin (rnd x) \<and> lo' \<le> rnd x \<and> rnd x \<le> hi'"
proof -
  have "rnd lo \<le> rnd x" using assms(1) by (rule rnd_mono)
  moreover have "rnd x \<le> rnd hi" using assms(2) by (rule rnd_mono)
  ultimately have b: "lo' \<le> rnd x" "rnd x \<le> hi'" using assms(3,4) by auto
  then have "\<bar>rnd x\<bar> \<le> 2 ^ 53" using assms(5,6) by auto
  then have "\<bar>rnd x\<bar> < 2 ^ 1024" by (rule below_max)
  then have "\<not> 2 ^ 1024 \<le> rnd x" "\<not> rnd x \<le> - (2 ^ 1024)" by auto
  then show ?thesis using b by (simp add: to_number_def Let_def)
qed

lemma js_arith_Fin:
  "js_add (Fin a) (Fin b) = to_number (a + b)"
  "js_sub (Fin a) (Fin b) = to_number (a - b)"
  "js_mul (Fin a) (Fin b) = to_number (a * b)"
  by (simp_all add: js_add_def js_sub_def js_mul_def js_neg_def)

lemma js_lt_Fin: "js_lt (Fin a) (Fin b) = (a < b)"
  by (simp add: js_lt_def)

lemma unit_sample_intro: "rnd p = p \<Longrightarrow> 0 \<le> p \<Longrightarrow> p < 1 \<Longrightarrow> unit_sample p"
  using below_max[of p] by (simp add: unit_sample_def is_double_def)

lemma unit_sampleD: "unit_sample p \<Longrightarrow> rnd p = p \<and> 0 \<le> p \<and> p \<le> 1 - 1 / 2 ^ 53"
  using double_below_one[of p] by (auto simp: unit_sample_def is_double_def)

subsection \<open>The rounding error, and rounding twice\<close>

lemma rne_error: "\<bar>of_int (rne y) - y\<bar> \<le> 1/2"
proof -
  have "of_int \<lfloor>y\<rfloor> \<le> y" "y < of_int \<lfloor>y\<rfloor> + 1" by linarith+
  then show ?thesis by (auto simp: rne_def Let_def)
qed

lemma rnd_error: "\<bar>rnd x - x\<bar> \<le> quantum x / 2"
proof (cases "x = 0")
  case True
  then show ?thesis using quantum_pos[of x] by (simp add: rnd_def)
next
  case False
  let ?q = "quantum x"
  have q: "0 < ?q" by (rule quantum_pos)
  have "rnd x - x = (of_int (rne (x / ?q)) - x / ?q) * ?q"
    using False q by (simp add: rnd_def field_simps)
  then have "\<bar>rnd x - x\<bar> = \<bar>of_int (rne (x / ?q)) - x / ?q\<bar> * ?q"
    using q by (simp add: abs_mult)
  also have "\<dots> \<le> 1/2 * ?q"
    using rne_error[of "x / ?q"] q by (intro mult_right_mono) auto
  finally show ?thesis by simp
qed

lemma rnd_pow2:
  assumes "- 1022 \<le> e"
  shows "rnd (2 powi e) = 2 powi e"
proof -
  have a: "\<bar>(2::real) powi e\<bar> = 2 powi e" by simp
  have "e < e + 1" by simp
  then have lt: "(2::real) powi e < 2 powi (e + 1)" by (intro power_int_strict_increasing) auto
  have "52 + (e - 52) = e" by linarith
  moreover have "(2::real) powi (52 + (e - 52)) = 2 powi 52 * 2 powi (e - 52)"
    by (rule power_int_add) simp
  ultimately have s: "(2::real) powi e = 2 powi 52 * 2 powi (e - 52)" by (simp only:)
  have "(2::real) powi e / 2 powi (e - 52) = 2 powi 52"
    by (subst s) simp
  then have "\<bar>(2::real) powi e / 2 powi (e - 52) - of_int (2 ^ 52)\<bar> < 1/2" by simp
  from rnd_eqI[of e "2 powi e" "2 ^ 52", OF _ _ assms this] a lt
  have "rnd (2 powi e) = of_int (2 ^ 52) * 2 powi (e - 52)" by simp
  then show ?thesis using s by simp
qed

lemma rnd_nonzero: "y \<noteq> 0 \<Longrightarrow> rnd y = of_int (rne (y / quantum y)) * quantum y"
  by (simp add: rnd_def)

lemma rnd_idem_pos:
  assumes "0 < x"
  shows "rnd (rnd x) = rnd x"
proof -
  let ?E = "max (bexp x) (- 1022)"
  let ?q = "quantum x"
  let ?k = "rne (x / ?q)"
  have q: "?q = 2 powi (?E - 52)" by (simp add: quantum_def)
  have qpos: "0 < ?q" by (rule quantum_pos)
  have r: "rnd x = of_int ?k * ?q" using assms by (simp add: rnd_def)
  have k0: "0 \<le> rnd x" using assms by (intro rnd_nonneg) simp
  have hi: "rnd x \<le> 2 powi (?E + 1)" using assms by (rule rnd_le_pow)
  consider "rnd x = 0" | "rnd x = 2 powi (?E + 1)" | "0 < rnd x" "rnd x < 2 powi (?E + 1)"
    using k0 hi by linarith
  then show ?thesis
  proof cases
    case 1
    then show ?thesis by (simp add: rnd_zero)
  next
    case 2
    have "- 1022 \<le> ?E + 1" by simp
    then show ?thesis unfolding 2 by (rule rnd_pow2)
  next
    case 3
    let ?y = "rnd x"
    have yn: "?y \<noteq> 0" using 3(1) by simp
    from bexp_bounds[OF yn] have b: "2 powi (bexp ?y) \<le> ?y" using 3(1) by simp
    then have "(2::real) powi (bexp ?y) < 2 powi (?E + 1)" using 3(2) by linarith
    then have le: "bexp ?y \<le> ?E" using powi_less_cancel[of "bexp ?y" "?E + 1"] by simp
    have E: "max (bexp ?y) (- 1022) = ?E"
    proof (cases "- 1022 \<le> bexp x")
      case True
      then have "2 powi (bexp x) \<le> ?y" using assms by (intro rnd_ge_pow)
      moreover have "?E = bexp x" using True by simp
      ultimately have "2 powi ?E \<le> \<bar>?y\<bar>" "\<bar>?y\<bar> < 2 powi (?E + 1)" using 3 by simp_all
      then have "bexp ?y = ?E" by (rule bexp_unique)
      then show ?thesis by simp
    next
      case False
      then have "?E = - 1022" by simp
      then show ?thesis using le by simp
    qed
    have qy: "quantum ?y = ?q" by (simp only: quantum_def E)
    have "?y / ?q = of_int ?k" using r qpos by simp
    then have "rne (?y / quantum ?y) = ?k" by (simp only: qy rne_of_int)
    with rnd_nonzero[OF yn] have "rnd ?y = of_int ?k * ?q" by (simp only: qy)
    then show ?thesis using r by simp
  qed
qed

lemma rnd_idem: "rnd (rnd x) = rnd x"
proof -
  consider "0 < x" | "x = 0" | "x < 0" by linarith
  then show ?thesis
  proof cases
    case 1
    then show ?thesis by (rule rnd_idem_pos)
  next
    case 2
    then show ?thesis by (simp add: rnd_zero)
  next
    case 3
    then have "rnd (rnd (- x)) = rnd (- x)" by (intro rnd_idem_pos) simp
    then show ?thesis by (simp add: rnd_minus)
  qed
qed

lemma ulp_le:
  assumes "0 \<le> x" "x < 2 powi e" "- 1021 \<le> e"
  shows "ulp x \<le> 2 powi (e - 53)"
proof (cases "x = 0")
  case True
  have "(2::real) powi (- 1074) \<le> 2 powi (e - 53)"
    using assms(3) by (intro power_int_increasing) auto
  then show ?thesis using True by (simp add: ulp_def)
next
  case False
  from bexp_bounds[OF False] have "2 powi (bexp x) \<le> x" using assms(1) by simp
  then have "(2::real) powi (bexp x) < 2 powi e" using assms(2) by linarith
  then have "bexp x < e" by (rule powi_less_cancel)
  then have "max (bexp x) (- 1022) - 52 \<le> e - 53" using assms(3) by simp
  then have "(2::real) powi (max (bexp x) (- 1022) - 52) \<le> 2 powi (e - 53)"
    by (intro power_int_increasing) auto
  then show ?thesis using False by (simp add: ulp_def quantum_def)
qed

lemma double_below_half:
  assumes "rnd p = p" "p < 1/2"
  shows "p \<le> 1/2 - 1 / 2 ^ 54"
proof (cases "p < 1/4")
  case True
  then show ?thesis by simp
next
  case False
  then have "2 powi (- 2) \<le> \<bar>p\<bar>" "\<bar>p\<bar> < 2 powi (- 2 + 1)" using assms(2) by auto
  then have "bexp p = - 2" by (rule bexp_unique)
  then have q: "quantum p = 2 powi (- 54)" by (simp add: quantum_def)
  define k where "k = rne (p / quantum p)"
  have p: "p = of_int k * (1 / 2 ^ 54)"
    using assms(1) False by (simp add: rnd_def k_def q power_int_minus_divide)
  then have "real_of_int k < 2 ^ 53" using assms(2) by (simp add: field_simps)
  then have "k < 2 ^ 53" by simp
  then have "k \<le> 2 ^ 53 - 1" by simp
  then have "real_of_int k \<le> real_of_int (2 ^ 53 - 1)" by (simp only: of_int_le_iff)
  then have "real_of_int k \<le> 2 ^ 53 - 1" by simp
  then have "of_int k * (1 / 2 ^ 54) \<le> (2 ^ 53 - 1) * (1 / 2 ^ 54 :: real)"
    by (intro mult_right_mono) auto
  then show ?thesis using p by (simp add: field_simps)
qed

subsection \<open>Doubles used below\<close>

lemma rnd_sixteenths:
  "rnd 10 = 10" "rnd (5/8) = 5/8" "rnd (5/4) = 5/4" "rnd (15/8) = 15/8" "rnd (5/2) = 5/2"
  "rnd (25/8) = 25/8" "rnd (15/4) = 15/4" "rnd (35/8) = 35/8" "rnd 5 = 5"
  by code_simp+

lemma rnd_consts:
  "rnd 1 = 1" "rnd (2 ^ 53 - 1) = 2 ^ 53 - 1" "rnd (- (2 ^ 53 - 1)) = - (2 ^ 53 - 1)"
  "rnd (1 / 2 ^ 30) = 1 / 2 ^ 30" "rnd (- (8388608 - 1 / 2 ^ 30)) = - (8388608 - 1 / 2 ^ 30)"
  "rnd (1 - 1 / 2 ^ 53) = 1 - 1 / 2 ^ 53" "rnd (2 ^ 53) = 2 ^ 53" "rnd (- (2 ^ 53)) = - (2 ^ 53)"
  by code_simp+

lemma rnd_samples: "rnd (1/2) = 1/2" "rnd (1/4) = 1/4"
  by code_simp+

lemma rnd_fifteen_sixteenths: "rnd (15/16) = 15/16"
  by code_simp

lemma rnd_near_max33: "rnd (2 ^ 53 - 33) = 2 ^ 53 - 33"
  by code_simp

lemma rnd_100_top: "rnd (100 * (1 - 1 / 2 ^ 53)) = 100 - 1 / 2 ^ 46"
  by code_simp

lemma rnd_95_top: "rnd (95 * (1 - 1 / 2 ^ 53)) = 95 - 1 / 2 ^ 46"
  by code_simp

lemma rnd_127_top: "rnd (127 - 1 / 2 ^ 46) = 127 - 1 / 2 ^ 46"
  by code_simp

lemma rnd_ascii: "rnd 32 = 32" "rnd 127 = 127" "rnd 95 = 95" "rnd 100 = 100" "rnd 126 = 126"
  by code_simp+

lemma rnd_half_pow30_min: "rnd (1 / 2 ^ 30 * (- (2 ^ 53 - 1))) = - (8388608 - 1 / 2 ^ 30)"
  by code_simp

lemma overshoot_steps_2:
  "rnd (2 + 1) = 3" "rnd (3 - 2) = 1" "rnd ((1 - 1 / 2 ^ 52) * 1) = 1 - 1 / 2 ^ 52"
  "rnd (1 - 1 / 2 ^ 52 + 2) = 3"
  by code_simp+

lemma overshoot_steps_10:
  "rnd (20 + 1) = 21" "rnd (21 - 10) = 11" "rnd ((1 - 1 / 2 ^ 52) * 11) = 11 - 1 / 2 ^ 49"
  "rnd (11 - 1 / 2 ^ 49 + 10) = 21"
  by code_simp+

lemma array_witness_steps:
  "rnd ((15/16) ^ 30) = 5197422874917239 / 2 ^ 55"
  "rnd (100 * (5197422874917239 / 2 ^ 55)) = 4060486621029093 / 2 ^ 48"
proof -
  show "rnd ((15/16) ^ 30) = 5197422874917239 / 2 ^ 55"
    using rnd_eqI[of "- 3" "(15/16) ^ 30" 5197422874917239] by (simp add: power_divide)
  show "rnd (100 * (5197422874917239 / 2 ^ 55)) = 4060486621029093 / 2 ^ 48"
    using rnd_eqI[of 3 "100 * (5197422874917239 / 2 ^ 55)" 8120973242058186] by simp
qed

subsection \<open>The power operator\<close>

text \<open>
  The correctly rounded power is accurate, so the hypothesis \<open>pow_accurate\<close> can be met;
  and an accurate power of a sample, with exponent 30, is a double of \<open>[0, 1)\<close> that is
  at most \<open>2^-30\<close> when the sample is below one half.
\<close>

lemma rounded_pow_nat: "rounded_pow (Fin a) (Fin (real n)) = to_number (a ^ n)"
  by (simp add: rounded_pow_def)

lemma rounded_pow_accurate: "pow_accurate rounded_pow"
  unfolding pow_accurate_def
proof (intro allI impI)
  fix a :: real and n :: nat
  assume "unit_sample a"
  then have a: "0 \<le> a" "a \<le> 1" using unit_sampleD[of a] by auto
  let ?x = "a ^ n"
  have lo: "0 \<le> ?x" using a by simp
  have hi: "?x \<le> 1" using a by (simp add: power_le_one)
  from to_number_between[OF lo hi rnd_zero rnd_consts(1)]
  have t: "to_number ?x = Fin (rnd ?x)" and b: "0 \<le> rnd ?x" "rnd ?x \<le> 1" by auto
  have "\<bar>rnd ?x\<bar> < 2 ^ 1024" using b by (intro below_max) auto
  then have d: "is_double (rnd ?x)" by (simp add: is_double_def rnd_idem)
  have e: "\<bar>rnd ?x - ?x\<bar> \<le> 2 * ulp ?x"
  proof (cases "?x = 0")
    case True
    have "0 \<le> ulp ?x" using True by (simp only: ulp_def if_True) simp
    moreover have "\<bar>rnd ?x - ?x\<bar> = 0" by (simp add: True rnd_zero)
    ultimately show ?thesis by linarith
  next
    case False
    have "\<bar>rnd ?x - ?x\<bar> \<le> quantum ?x / 2" by (rule rnd_error)
    also have "\<dots> \<le> 2 * quantum ?x" using quantum_pos[of ?x] by simp
    finally have "\<bar>rnd ?x - ?x\<bar> \<le> 2 * quantum ?x" .
    moreover have "ulp ?x = quantum ?x" by (simp only: ulp_def False if_False)
    ultimately show ?thesis by (simp only:)
  qed
  show "\<exists>w. rounded_pow (Fin a) (Fin (real n)) = Fin w \<and> is_double w \<and> 0 \<le> w \<and>
             \<bar>w - ?x\<bar> \<le> 2 * ulp ?x"
    using t d b(1) e by (intro exI[of _ "rnd ?x"]) (simp add: rounded_pow_nat)
qed

lemma near_one_pow4: "(1 - 1 / 2 ^ 53 :: real) ^ 4 \<le> 1 - 3 / 2 ^ 53"
  by (simp add: power_divide)

lemma pow30_bounds:
  assumes "pow_accurate pw" "unit_sample p"
  shows "\<exists>w. pw (Fin p) (Fin 30) = Fin w \<and> rnd w = w \<and> 0 \<le> w \<and> w \<le> 1 - 1 / 2 ^ 53 \<and>
             (p < 1/2 \<longrightarrow> w \<le> 1 / 2 ^ 30) \<and> p ^ 30 - 2 * ulp (p ^ 30) \<le> w \<and>
             w \<le> p ^ 30 + 2 * ulp (p ^ 30)"
proof -
  from assms have "\<exists>w. pw (Fin p) (Fin (real 30)) = Fin w \<and> is_double w \<and> 0 \<le> w \<and>
      \<bar>w - p ^ 30\<bar> \<le> 2 * ulp (p ^ 30)"
    unfolding pow_accurate_def by blast
  then obtain w where w: "pw (Fin p) (Fin 30) = Fin w" "is_double w" "0 \<le> w"
      "\<bar>w - p ^ 30\<bar> \<le> 2 * ulp (p ^ 30)" by auto
  from unit_sampleD[OF assms(2)] have p: "rnd p = p" "0 \<le> p" "p \<le> 1 - 1 / 2 ^ 53" by auto
  have p1: "p \<le> 1" using p(3) by simp
  have "p ^ 30 \<le> p ^ 4" using p(2) p1 by (intro power_decreasing) auto
  also have "\<dots> \<le> (1 - 1 / 2 ^ 53) ^ 4" using p(2,3) by (intro power_mono) auto
  also have "\<dots> \<le> 1 - 3 / 2 ^ 53" by (rule near_one_pow4)
  finally have x: "p ^ 30 \<le> 1 - 3 / 2 ^ 53" .
  have x0: "0 \<le> p ^ 30" using p(2) by simp
  have "p ^ 30 < 2 powi 0" using x by simp
  from ulp_le[OF x0 this] have u: "ulp (p ^ 30) \<le> 1 / 2 ^ 53"
    by (simp add: power_int_minus_divide)
  have A: "w \<le> 1 - 1 / 2 ^ 53" using w(4) x u by (simp add: abs_le_iff)
  have B: "p < 1/2 \<longrightarrow> w \<le> 1 / 2 ^ 30"
  proof
    assume "p < 1/2"
    with p(1) have "p \<le> 1/2 - 1 / 2 ^ 54" by (rule double_below_half)
    then have h: "p \<le> 1/2 * (1 - 1 / 2 ^ 53)" by simp
    have "p ^ 30 \<le> (1/2 * (1 - 1 / 2 ^ 53)) ^ 30" using p(2) h by (intro power_mono) auto
    also have "\<dots> = (1/2) ^ 30 * (1 - 1 / 2 ^ 53) ^ 30" by (rule power_mult_distrib)
    also have "\<dots> \<le> (1/2) ^ 30 * (1 - 1 / 2 ^ 53) ^ 4"
      by (intro mult_left_mono power_decreasing) auto
    also have "\<dots> \<le> (1/2) ^ 30 * (1 - 3 / 2 ^ 53)"
      by (intro mult_left_mono near_one_pow4) auto
    finally have y: "p ^ 30 \<le> (1/2) ^ 30 * (1 - 3 / 2 ^ 53)" .
    have "(1/2 :: real) ^ 30 * (1 - 3 / 2 ^ 53) < 2 powi (- 30)"
      by (simp add: power_int_minus_divide power_divide)
    with y have "p ^ 30 < 2 powi (- 30)" by linarith
    from ulp_le[OF x0 this] have u': "ulp (p ^ 30) \<le> 1 / 2 ^ 83"
      by (simp add: power_int_minus_divide)
    have "(1/2 :: real) ^ 30 * (1 - 3 / 2 ^ 53) + 2 * (1 / 2 ^ 83) \<le> 1 / 2 ^ 30"
      by (simp add: power_divide)
    then show "w \<le> 1 / 2 ^ 30" using w(4) y u' by (simp add: abs_le_iff)
  qed
  have C: "p ^ 30 - 2 * ulp (p ^ 30) \<le> w" using w(4) by (simp add: abs_le_iff)
  have D: "w \<le> p ^ 30 + 2 * ulp (p ^ 30)" using w(4) by (simp add: abs_le_iff)
  have "rnd w = w" using w(2) by (simp add: is_double_def)
  then show ?thesis using w(1,3) A B C D by blast
qed

section \<open>Generators unfolded\<close>

lemma generate_unfold:
  "generate f r = generator f (Fin (samples r (drawn r))) (r\<lparr>drawn := Suc (drawn r)\<rparr>)"
  by (simp add: generate_def random_def)

lemma generator_int:
  "generator (Fuzzer_int pw) prng r =
     (Inr (if js_lt prng (Fin (1/2))
           then Math_ceil (js_mul (pw prng (Fin 30)) MIN_SAFE_INTEGER)
           else Math_floor (js_mul (pw prng (Fin 30)) MAX_SAFE_INTEGER)), r)"
  by (simp add: Fuzzer_int_def Let_def ret_def)

lemma generator_intRange:
  "generator (Fuzzer_intRange minv maxv) prng r =
     (Inr (Math_floor (js_add (js_mul prng (js_sub (js_add maxv (Fin 1)) minv)) minv)), r)"
  by (simp add: Fuzzer_intRange_def ret_def)

lemma intRange_never_throws:
  "\<exists>v. fst (generate (Fuzzer_intRange a b) s) = Inr v"
  by (simp add: generate_unfold generator_intRange)

lemma generate_intRange_0_9:
  "generate (Fuzzer_intRange (Fin 0) (Fin 9)) \<lparr>samples = \<lambda>n. real n / 16, drawn = k\<rparr> =
     (Inr (Math_floor (js_add (to_number (real k / 16 * 10)) (Fin 0))),
      \<lparr>samples = \<lambda>n. real n / 16, drawn = Suc k\<rparr>)"
  by (simp add: generate_def random_def Fuzzer_intRange_def ret_def js_arith_Fin
      to_number_fix rnd_sixteenths)

section \<open>The combinators\<close>

text \<open>
  C9. Every generation from \<open>constant(v)\<close> returns \<open>v\<close> itself, whatever sample the
  generator is given and whatever the state of the random source, also after any
  number of earlier generations from the same fuzzer.
\<close>

theorem constant_returns_value:
  "generator (Fuzzer_constant v) p r = (Inr v, r) \<and>
   fst (generate (Fuzzer_constant v) r) = Inr v \<and>
   fst (generate (Fuzzer_constant v)
          (((\<lambda>s. snd (generate (Fuzzer_constant v) s)) ^^ n) r)) = Inr v"
  by (simp add: Fuzzer_constant_def generate_def random_def ret_def)

text \<open>
  C2. One generation from \<open>map(fa, f1)\<close> generates a value \<open>a\<close> from \<open>fa\<close> during that
  generation and returns \<open>f1 a\<close>. One generation from \<open>map2\<close> to \<open>map8\<close> generates from
  the input fuzzers in argument order, each starting from the random source as the one
  before left it, and returns the transform applied to the values in that order.
\<close>

theorem map_family_generates_in_order:
  assumes "generate fa (snd (random r)) = (Inr a, r1)"
    and "generate fb r1 = (Inr b, r2)"
    and "generate fc r2 = (Inr c, r3)"
    and "generate fd r3 = (Inr d, r4)"
    and "generate fe r4 = (Inr e, r5)"
    and "generate ff r5 = (Inr f, r6)"
    and "generate fg r6 = (Inr g, r7)"
    and "generate fh r7 = (Inr h, r8)"
  shows "generate (Fuzzer_map fa f1) r = (Inr (f1 a), r1) \<and>
         generate (Fuzzer_map2 fa fb f2) r = (Inr (f2 a b), r2) \<and>
         generate (Fuzzer_map3 fa fb fc f3) r = (Inr (f3 a b c), r3) \<and>
         generate (Fuzzer_map4 fa fb fc fd f4) r = (Inr (f4 a b c d), r4) \<and>
         generate (Fuzzer_map5 fa fb fc fd fe f5) r = (Inr (f5 a b c d e), r5) \<and>
         generate (Fuzzer_map6 fa fb fc fd fe ff f6) r = (Inr (f6 a b c d e f), r6) \<and>
         generate (Fuzzer_map7 fa fb fc fd fe ff fg f7) r = (Inr (f7 a b c d e f g), r7) \<and>
         generate (Fuzzer_map8 fa fb fc fd fe ff fg fh f8) r = (Inr (f8 a b c d e f g h), r8)"
proof -
  have g: "\<And>m. generate (Fuzzer m) r = m (fst (random r)) (snd (random r))"
    by (simp add: generate_def split: prod.splits)
  show ?thesis
    unfolding Fuzzer_map_def Fuzzer_map2_def Fuzzer_map3_def Fuzzer_map4_def
      Fuzzer_map5_def Fuzzer_map6_def Fuzzer_map7_def Fuzzer_map8_def g
    using assms by (simp add: andThenC_def ret_def)
qed

text \<open>
  The source yields 0/16, 1/16, 2/16, ...; sample 0 goes to the mapped fuzzer itself,
  which ignores it, and samples 1 to 8 go to the eight \<open>intRange(0, 9)\<close> in order.
\<close>

theorem map_family_generates_in_order_witness:
  "generate (Fuzzer_map (Fuzzer_intRange (Fin 0) (Fin 9)) js_neg)
     \<lparr>samples = \<lambda>n. real n / 16, drawn = 0\<rparr>
     = (Inr (Fin 0), \<lparr>samples = \<lambda>n. real n / 16, drawn = 2\<rparr>) \<and>
   generate (Fuzzer_map8 (Fuzzer_intRange (Fin 0) (Fin 9)) (Fuzzer_intRange (Fin 0) (Fin 9))
       (Fuzzer_intRange (Fin 0) (Fin 9)) (Fuzzer_intRange (Fin 0) (Fin 9))
       (Fuzzer_intRange (Fin 0) (Fin 9)) (Fuzzer_intRange (Fin 0) (Fin 9))
       (Fuzzer_intRange (Fin 0) (Fin 9)) (Fuzzer_intRange (Fin 0) (Fin 9))
       (\<lambda>a b c d e f g h. [a, b, c, d, e, f, g, h]))
     \<lparr>samples = \<lambda>n. real n / 16, drawn = 0\<rparr>
     = (Inr [Fin 0, Fin 1, Fin 1, Fin 2, Fin 3, Fin 3, Fin 4, Fin 5],
        \<lparr>samples = \<lambda>n. real n / 16, drawn = 9\<rparr>)"
  using map_family_generates_in_order
    [of "Fuzzer_intRange (Fin 0) (Fin 9)" "\<lparr>samples = \<lambda>n. real n / 16, drawn = 0\<rparr>"
        "Fin 0" "\<lparr>samples = \<lambda>n. real n / 16, drawn = 2\<rparr>"
        "Fuzzer_intRange (Fin 0) (Fin 9)" "Fin 1" "\<lparr>samples = \<lambda>n. real n / 16, drawn = 3\<rparr>"
        "Fuzzer_intRange (Fin 0) (Fin 9)" "Fin 1" "\<lparr>samples = \<lambda>n. real n / 16, drawn = 4\<rparr>"
        "Fuzzer_intRange (Fin 0) (Fin 9)" "Fin 2" "\<lparr>samples = \<lambda>n. real n / 16, drawn = 5\<rparr>"
        "Fuzzer_intRange (Fin 0) (Fin 9)" "Fin 3" "\<lparr>samples = \<lambda>n. real n / 16, drawn = 6\<rparr>"
        "Fuzzer_intRange (Fin 0) (Fin 9)" "Fin 3" "\<lparr>samples = \<lambda>n. real n / 16, drawn = 7\<rparr>"
        "Fuzzer_intRange (Fin 0) (Fin 9)" "Fin 4" "\<lparr>samples = \<lambda>n. real n / 16, drawn = 8\<rparr>"
        "Fuzzer_intRange (Fin 0) (Fin 9)" "Fin 5" "\<lparr>samples = \<lambda>n. real n / 16, drawn = 9\<rparr>"
        js_neg
        "\<lambda>a b. [a, b]" "\<lambda>a b c. [a, b, c]" "\<lambda>a b c d. [a, b, c, d]" "\<lambda>a b c d e. [a, b, c, d, e]"
        "\<lambda>a b c d e f. [a, b, c, d, e, f]" "\<lambda>a b c d e f g. [a, b, c, d, e, f, g]"
        "\<lambda>a b c d e f g h. [a, b, c, d, e, f, g, h]"]
  by (simp add: random_def generate_intRange_0_9 to_number_fix rnd_sixteenths js_arith_Fin
      Math_floor_def js_neg_def)

text \<open>
  C1. \<open>andThen(intRange(0, 9), constant)\<close> on a source whose first sample is 1/2 and
  whose later samples are 0: building the fuzzer draws the first sample (the counter
  goes from 0 to 1), and the fuzzer it returns is \<open>constant(5)\<close>. Every generation from
  it returns 5, the one value generated while building, although \<open>intRange(0, 9)\<close>
  generated from the source as the building left it would return 0.
\<close>

theorem andThen_samples_at_construction:
  "Fuzzer_andThen (Fuzzer_intRange (Fin 0) (Fin 9)) Fuzzer_constant
     \<lparr>samples = (\<lambda>n. if n = 0 then 1/2 else 0), drawn = 0\<rparr>
   = (Inr (Fuzzer_constant (Fin 5)),
      \<lparr>samples = (\<lambda>n. if n = 0 then 1/2 else 0), drawn = 1\<rparr>) \<and>
   fst (generate (Fuzzer_constant (Fin 5)) s) = Inr (Fin 5) \<and>
   fst (generate (Fuzzer_intRange (Fin 0) (Fin 9))
          \<lparr>samples = (\<lambda>n. if n = 0 then 1/2 else 0), drawn = 1\<rparr>) = Inr (Fin 0)"
  by (simp add: Fuzzer_andThen_def andThenC_def generate_def random_def Fuzzer_intRange_def
      Fuzzer_constant_def ret_def js_arith_Fin Math_floor_def to_number_fix rnd_sixteenths
      rnd_zero)

section \<open>The numeric primitives\<close>

text \<open>
  C5. \<open>intRange(min, max)\<close> computes \<open>floor(p * (max + 1 - min) + min)\<close> in double
  arithmetic, and the sum can round up to \<open>max + 1\<close>. The sample \<open>1 - 2^-52\<close> is a
  double below 1. In \<open>intRange(2, 2)\<close> the sum \<open>3 - 2^-52\<close> lies halfway between the
  doubles \<open>3 - 2^-51\<close> and 3 and rounds to the even one, 3. In \<open>intRange(10, 20)\<close> the
  product rounds to \<open>11 - 2^-49\<close> and the sum \<open>21 - 2^-49\<close> rounds to 21.
\<close>

theorem intRange_overshoots_max:
  "unit_sample (1 - 1 / 2 ^ 52) \<and>
   generator (Fuzzer_intRange (Fin 2) (Fin 2)) (Fin (1 - 1 / 2 ^ 52)) r = (Inr (Fin 3), r) \<and>
   generator (Fuzzer_intRange (Fin 10) (Fin 20)) (Fin (1 - 1 / 2 ^ 52)) r = (Inr (Fin 21), r)"
proof -
  have "rnd (1 - 1 / 2 ^ 52) = 1 - 1 / 2 ^ 52" using overshoot_steps_2(3) by simp
  moreover have "\<bar>1 - 1 / 2 ^ 52\<bar> < (2::real) ^ 1024" by (rule below_max) simp
  ultimately have u: "unit_sample (1 - 1 / 2 ^ 52)"
    unfolding unit_sample_def is_double_def by simp
  have a1: "js_add (Fin 2) (Fin 1) = Fin 3"
    unfolding js_arith_Fin by (rule to_number_eval[OF overshoot_steps_2(1)]) simp
  have a2: "js_sub (Fin 3) (Fin 2) = Fin 1"
    unfolding js_arith_Fin by (rule to_number_eval[OF overshoot_steps_2(2)]) simp
  have a3: "js_mul (Fin (1 - 1 / 2 ^ 52)) (Fin 1) = Fin (1 - 1 / 2 ^ 52)"
    unfolding js_arith_Fin by (rule to_number_eval[OF overshoot_steps_2(3)]) simp
  have a4: "js_add (Fin (1 - 1 / 2 ^ 52)) (Fin 2) = Fin 3"
    unfolding js_arith_Fin by (rule to_number_eval[OF overshoot_steps_2(4)]) simp
  have b1: "js_add (Fin 20) (Fin 1) = Fin 21"
    unfolding js_arith_Fin by (rule to_number_eval[OF overshoot_steps_10(1)]) simp
  have b2: "js_sub (Fin 21) (Fin 10) = Fin 11"
    unfolding js_arith_Fin by (rule to_number_eval[OF overshoot_steps_10(2)]) simp
  have b3: "js_mul (Fin (1 - 1 / 2 ^ 52)) (Fin 11) = Fin (11 - 1 / 2 ^ 49)"
    unfolding js_arith_Fin by (rule to_number_eval[OF overshoot_steps_10(3)]) simp
  have b4: "js_add (Fin (11 - 1 / 2 ^ 49)) (Fin 10) = Fin 21"
    unfolding js_arith_Fin by (rule to_number_eval[OF overshoot_steps_10(4)]) simp
  have f: "Math_floor (Fin 3) = Fin 3" "Math_floor (Fin 21) = Fin 21"
    by (simp_all add: Math_floor_def)
  have "generator (Fuzzer_intRange (Fin 2) (Fin 2)) (Fin (1 - 1 / 2 ^ 52)) r = (Inr (Fin 3), r)"
    unfolding generator_intRange a1 a2 a3 a4 f ..
  moreover
  have "generator (Fuzzer_intRange (Fin 10) (Fin 20)) (Fin (1 - 1 / 2 ^ 52)) r = (Inr (Fin 21), r)"
    unfolding generator_intRange b1 b2 b3 b4 f ..
  ultimately show ?thesis using u by simp
qed

subsection \<open>The values of int\<close>

lemma int_value:
  assumes "pow_accurate pw" "unit_sample p"
  shows "\<exists>x. generator (Fuzzer_int pw) (Fin p) r = (Inr (Fin (of_int x)), r) \<and>
             - 8388607 \<le> x \<and> x \<le> 2 ^ 53 - 1"
proof -
  from pow30_bounds[OF assms] obtain w where w: "pw (Fin p) (Fin 30) = Fin w"
    "0 \<le> w" "w \<le> 1 - 1 / 2 ^ 53" "p < 1/2 \<longrightarrow> w \<le> 1 / 2 ^ 30" by blast
  show ?thesis
  proof (cases "p < 1/2")
    case True
    then have ws: "w \<le> 1 / 2 ^ 30" using w(4) by simp
    have "w * (2 ^ 53 - 1) \<le> 1 / 2 ^ 30 * (2 ^ 53 - 1)"
      using ws by (intro mult_right_mono) auto
    then have lo: "- (8388608 - 1 / 2 ^ 30) \<le> w * (- (2 ^ 53 - 1))" by simp
    have hi: "w * (- (2 ^ 53 - 1)) \<le> 0" using w(2) by (simp add: mult_nonneg_nonpos)
    from to_number_between[OF lo hi rnd_consts(5) rnd_zero]
    have m: "to_number (w * (- (2 ^ 53 - 1))) = Fin (rnd (w * (- (2 ^ 53 - 1))))"
      and b: "- (8388608 - 1 / 2 ^ 30) \<le> rnd (w * (- (2 ^ 53 - 1)))"
        "rnd (w * (- (2 ^ 53 - 1))) \<le> 0" by auto
    let ?c = "\<lceil>rnd (w * (- (2 ^ 53 - 1)))\<rceil>"
    have "- 8388608 < rnd (w * (- (2 ^ 53 - 1)))" using b(1) by simp
    then have "- 8388608 < ?c" by (simp add: less_ceiling_iff)
    moreover have "?c \<le> 0" using b(2) by (simp add: ceiling_le_iff)
    ultimately have "- 8388607 \<le> ?c \<and> ?c \<le> 2 ^ 53 - 1" by simp
    moreover have "generator (Fuzzer_int pw) (Fin p) r = (Inr (Fin (of_int ?c)), r)"
      using True by (simp only: generator_int w(1) js_lt_Fin if_True MIN_SAFE_INTEGER_def
          js_arith_Fin m Math_ceil_def number.case)
    ultimately show ?thesis by blast
  next
    case False
    have lo: "0 \<le> w * (2 ^ 53 - 1)" using w(2) by simp
    have "w \<le> 1" using w(3) by simp
    then have "w * (2 ^ 53 - 1) \<le> 1 * (2 ^ 53 - 1)" by (intro mult_right_mono) auto
    then have hi: "w * (2 ^ 53 - 1) \<le> 2 ^ 53 - 1" by simp
    from to_number_between[OF lo hi rnd_zero rnd_consts(2)]
    have m: "to_number (w * (2 ^ 53 - 1)) = Fin (rnd (w * (2 ^ 53 - 1)))"
      and b: "0 \<le> rnd (w * (2 ^ 53 - 1))" "rnd (w * (2 ^ 53 - 1)) \<le> 2 ^ 53 - 1" by auto
    let ?f = "\<lfloor>rnd (w * (2 ^ 53 - 1))\<rfloor>"
    have "0 \<le> ?f" using b(1) by simp
    moreover have "?f \<le> 2 ^ 53 - 1" using b(2) by (simp add: floor_le_iff)
    ultimately have "- 8388607 \<le> ?f \<and> ?f \<le> 2 ^ 53 - 1" by simp
    moreover have "generator (Fuzzer_int pw) (Fin p) r = (Inr (Fin (of_int ?f)), r)"
      using False by (simp only: generator_int w(1) js_lt_Fin if_False MAX_SAFE_INTEGER_def
          js_arith_Fin m Math_floor_def number.case)
    ultimately show ?thesis by blast
  qed
qed

lemma int_near_max:
  assumes "pow_accurate pw"
  shows "\<exists>x. generator (Fuzzer_int pw) (Fin (1 - 1 / 2 ^ 53)) r = (Inr (Fin (of_int x)), r) \<and>
       2 ^ 53 - 33 \<le> x"
proof -
  let ?p = "1 - 1 / 2 ^ 53 :: real"
  have u: "unit_sample ?p" by (rule unit_sample_intro[OF rnd_consts(6)]) simp_all
  from pow30_bounds[OF assms u] obtain w where w: "pw (Fin ?p) (Fin 30) = Fin w"
    "0 \<le> w" "w \<le> 1 - 1 / 2 ^ 53" "?p ^ 30 - 2 * ulp (?p ^ 30) \<le> w" by blast
  have "1 + real 30 * (- (1 / 2 ^ 53)) \<le> (1 + (- (1 / 2 ^ 53))) ^ 30"
    by (rule Bernoulli_inequality) simp
  then have bl: "1 - 30 / 2 ^ 53 \<le> ?p ^ 30" by simp
  have "?p ^ 30 \<le> ?p ^ 1" by (intro power_decreasing) auto
  then have "?p ^ 30 < 2 powi 0" by simp
  moreover have "0 \<le> ?p ^ 30" by simp
  ultimately have "ulp (?p ^ 30) \<le> 2 powi (0 - 53)" by (intro ulp_le) auto
  then have ul: "ulp (?p ^ 30) \<le> 1 / 2 ^ 53" by (simp add: power_int_minus_divide)
  have wl: "1 - 32 / 2 ^ 53 \<le> w" using w(4) bl ul by linarith
  have "(1 - 32 / 2 ^ 53) * (2 ^ 53 - 1) \<le> w * (2 ^ 53 - 1)"
    using wl by (intro mult_right_mono) auto
  moreover have "(2::real) ^ 53 - 33 \<le> (1 - 32 / 2 ^ 53) * (2 ^ 53 - 1)" by simp
  ultimately have lo: "2 ^ 53 - 33 \<le> w * (2 ^ 53 - 1)" by linarith
  have "w \<le> 1" using w(3) by simp
  then have "w * (2 ^ 53 - 1) \<le> 1 * (2 ^ 53 - 1)" by (intro mult_right_mono) auto
  then have hi: "w * (2 ^ 53 - 1) \<le> 2 ^ 53 - 1" by simp
  from to_number_between[OF lo hi rnd_near_max33 rnd_consts(2)]
  have m: "to_number (w * (2 ^ 53 - 1)) = Fin (rnd (w * (2 ^ 53 - 1)))"
    and b: "2 ^ 53 - 33 \<le> rnd (w * (2 ^ 53 - 1))" by auto
  let ?f = "\<lfloor>rnd (w * (2 ^ 53 - 1))\<rfloor>"
  have "real_of_int (2 ^ 53 - 33) \<le> rnd (w * (2 ^ 53 - 1))" using b by simp
  then have "2 ^ 53 - 33 \<le> ?f" by (simp only: le_floor_iff)
  moreover have "\<not> ?p < 1/2" by simp
  then have "generator (Fuzzer_int pw) (Fin ?p) r = (Inr (Fin (of_int ?f)), r)"
    by (simp only: generator_int w(1) js_lt_Fin if_False MAX_SAFE_INTEGER_def
        js_arith_Fin m Math_floor_def number.case)
  ultimately show ?thesis by blast
qed

text \<open>
  C6. Let the engine's \<open>**\<close> be accurate in the sense of \<open>pow_accurate\<close>. For every sample
  \<open>p\<close> that \<open>Math.random()\<close> may return, a generation from \<open>int\<close> returns a finite
  number, and so does a generation from \<open>float\<close> when the sample its inner \<open>int\<close>
  generation draws is such a sample too: neither NaN nor an infinity.
\<close>

theorem int_and_float_are_finite:
  assumes "pow_accurate pw" and "unit_sample p" and "unit_sample (samples r (drawn r))"
  shows "(\<exists>x. generator (Fuzzer_int pw) (Fin p) r = (Inr (Fin x), r)) \<and>
         (\<exists>y r'. generator (Fuzzer_float pw) (Fin p) r = (Inr (Fin y), r'))"
proof -
  from int_value[OF assms(1,2), of r]
  have A: "\<exists>x. generator (Fuzzer_int pw) (Fin p) r = (Inr (Fin x), r)"
    by blast
  let ?r1 = "r\<lparr>drawn := Suc (drawn r)\<rparr>"
  from int_value[OF assms(1,3), of ?r1] obtain i where
    i: "generator (Fuzzer_int pw) (Fin (samples r (drawn r))) ?r1 = (Inr (Fin (of_int i)), ?r1)"
      "- 8388607 \<le> i" "i \<le> 2 ^ 53 - 1" by blast
  from unit_sampleD[OF assms(2)] have p: "0 \<le> p" "p \<le> 1 - 1 / 2 ^ 53" by auto
  have "real_of_int (- 8388607) \<le> of_int i" using i(2) by (simp only: of_int_le_iff)
  then have lo: "- (2 ^ 53) \<le> of_int i + p" using p(1) by simp
  have "real_of_int i \<le> of_int (2 ^ 53 - 1)" using i(3) by (simp only: of_int_le_iff)
  then have hi: "of_int i + p \<le> 2 ^ 53" using p(2) by simp
  from to_number_between[OF lo hi rnd_consts(8) rnd_consts(7)]
  have s: "to_number (of_int i + p) = Fin (rnd (of_int i + p))" by simp
  have "generator (Fuzzer_float pw) (Fin p) r = (Inr (Fin (rnd (of_int i + p))), ?r1)"
    by (simp add: Fuzzer_float_def andThenC_def generate_unfold i(1) ret_def js_arith_Fin s)
  then show ?thesis using A by blast
qed

text \<open>With the correctly rounded power for \<open>**\<close>, \<open>p = 1/2\<close> and a source of \<open>1/4\<close>.\<close>

theorem int_and_float_are_finite_witness:
  "pow_accurate rounded_pow \<and> unit_sample (1/2) \<and> unit_sample (1/4) \<and>
   (\<exists>x. generator (Fuzzer_int rounded_pow) (Fin (1/2)) \<lparr>samples = \<lambda>n. 1/4, drawn = 0\<rparr>
          = (Inr (Fin x), \<lparr>samples = \<lambda>n. 1/4, drawn = 0\<rparr>)) \<and>
   (\<exists>y r'. generator (Fuzzer_float rounded_pow) (Fin (1/2)) \<lparr>samples = \<lambda>n. 1/4, drawn = 0\<rparr>
          = (Inr (Fin y), r'))"
proof -
  have u: "unit_sample (1/2)" "unit_sample (1/4)"
    by (rule unit_sample_intro[OF rnd_samples(1)], simp, simp)
       (rule unit_sample_intro[OF rnd_samples(2)], simp, simp)
  show ?thesis
    using u rounded_pow_accurate
      int_and_float_are_finite[where pw = rounded_pow and p = "1/2"
        and r = "\<lparr>samples = \<lambda>n. 1/4, drawn = 0\<rparr>"]
    by simp
qed

text \<open>
  C10. Let the engine's \<open>**\<close> be accurate in the sense of \<open>pow_accurate\<close>. Every value of
  \<open>int\<close> is an integer not below \<open>-8388607\<close>, which is what the negative branch
  computes from the weight \<open>2^-30\<close>, \<open>ceil(2^-30 * MIN_SAFE_INTEGER)\<close>; on the branch
  \<open>p \<ge> 0.5\<close> there is a sample whose value is within 32 of \<open>MAX_SAFE_INTEGER\<close>.
\<close>

theorem int_lower_bound:
  assumes "pow_accurate pw" and "unit_sample p"
  shows "(\<exists>x. generator (Fuzzer_int pw) (Fin p) r = (Inr (Fin (of_int x)), r) \<and> - 8388607 \<le> x) \<and>
         Math_ceil (js_mul (Fin (1 / 2 ^ 30)) MIN_SAFE_INTEGER) = Fin (- 8388607) \<and>
         (\<exists>q y. unit_sample q \<and> 1/2 \<le> q \<and>
            generator (Fuzzer_int pw) (Fin q) r = (Inr (Fin (of_int y)), r) \<and> 2 ^ 53 - 33 \<le> y)"
proof -
  from int_value[OF assms, of r]
  have A: "\<exists>x. generator (Fuzzer_int pw) (Fin p) r = (Inr (Fin (of_int x)), r) \<and> - 8388607 \<le> x"
    by blast
  have "js_mul (Fin (1 / 2 ^ 30)) MIN_SAFE_INTEGER = Fin (- (8388608 - 1 / 2 ^ 30))"
    unfolding MIN_SAFE_INTEGER_def js_arith_Fin
    by (rule to_number_eval[OF rnd_half_pow30_min]) simp
  moreover have "Math_ceil (Fin (- (8388608 - 1 / 2 ^ 30))) = Fin (- 8388607)"
  proof -
    have "\<lceil>- (8388608 - 1 / 2 ^ 30) :: real\<rceil> = - 8388607" by (simp add: ceiling_eq_iff)
    then show ?thesis by (simp add: Math_ceil_def)
  qed
  ultimately have B: "Math_ceil (js_mul (Fin (1 / 2 ^ 30)) MIN_SAFE_INTEGER) = Fin (- 8388607)"
    by (simp only:)
  have u: "unit_sample (1 - 1 / 2 ^ 53)"
    by (rule unit_sample_intro[OF rnd_consts(6)]) simp_all
  have "(1::real) / 2 \<le> 1 - 1 / 2 ^ 53" by simp
  with u int_near_max[OF assms(1), of r]
  have C: "\<exists>q y. unit_sample q \<and> 1/2 \<le> q \<and>
            generator (Fuzzer_int pw) (Fin q) r = (Inr (Fin (of_int y)), r) \<and> 2 ^ 53 - 33 \<le> y"
    by blast
  show ?thesis using A B C by blast
qed

text \<open>With the correctly rounded power for \<open>**\<close> and \<open>p = 1/4\<close>.\<close>

theorem int_lower_bound_witness:
  "pow_accurate rounded_pow \<and> unit_sample (1/4) \<and>
   (\<exists>x. generator (Fuzzer_int rounded_pow) (Fin (1/4)) \<lparr>samples = \<lambda>n. 0, drawn = 0\<rparr>
          = (Inr (Fin (of_int x)), \<lparr>samples = \<lambda>n. 0, drawn = 0\<rparr>) \<and> - 8388607 \<le> x)"
proof -
  have u: "unit_sample (1/4)" by (rule unit_sample_intro[OF rnd_samples(2)]) simp_all
  show ?thesis
    using u rounded_pow_accurate
      int_lower_bound[where pw = rounded_pow and p = "1/4"
        and r = "\<lparr>samples = \<lambda>n. 0, drawn = 0\<rparr>"]
    by simp
qed

section \<open>Arrays and strings\<close>

lemma Array_fill_null_nat:
  assumes "n < 100"
  shows "Array_fill_null (Fin (real n)) r = (Inr (replicate n ()), r)"
proof -
  have "real n < 2 ^ 32" using assms by simp
  then show ?thesis by (simp add: Array_fill_null_def ret_def)
qed

lemma Array_map_generate:
  assumes "\<forall>i<n. \<exists>v. fst (generate g ((after (generate g) ^^ i) r)) = Inr v"
  shows "\<exists>xs. Array_map (replicate n ()) (\<lambda>_. generate g) r
            = (Inr xs, (after (generate g) ^^ n) r) \<and>
          length xs = n \<and>
          (\<forall>i<n. fst (generate g ((after (generate g) ^^ i) r)) = Inr (xs ! i))"
  using assms
proof (induction n arbitrary: r)
  case 0
  then show ?case by (simp add: ret_def)
next
  case (Suc n)
  let ?nx = "after (generate g)"
  from Suc.prems have "\<exists>v. fst (generate g ((?nx ^^ 0) r)) = Inr v" by blast
  then obtain v where v: "generate g r = (Inr v, ?nx r)"
    by (cases "generate g r") (auto simp: after_def)
  have "\<forall>i<n. \<exists>v. fst (generate g ((?nx ^^ i) (?nx r))) = Inr v"
  proof (intro allI impI)
    fix i assume "i < n"
    then have "Suc i < Suc n" by simp
    with Suc.prems have "\<exists>v. fst (generate g ((?nx ^^ Suc i) r)) = Inr v" by blast
    then show "\<exists>v. fst (generate g ((?nx ^^ i) (?nx r))) = Inr v" by (simp add: funpow_swap1)
  qed
  from Suc.IH[OF this] obtain xs where xs:
    "Array_map (replicate n ()) (\<lambda>_. generate g) (?nx r) = (Inr xs, (?nx ^^ n) (?nx r))"
    "length xs = n"
    "\<forall>i<n. fst (generate g ((?nx ^^ i) (?nx r))) = Inr (xs ! i)" by blast
  have 1: "Array_map (replicate (Suc n) ()) (\<lambda>_. generate g) r
      = (Inr (v # xs), (?nx ^^ Suc n) r)"
    by (simp add: andThenC_def v xs(1) ret_def funpow_swap1)
  have 2: "\<forall>i<Suc n. fst (generate g ((?nx ^^ i) r)) = Inr ((v # xs) ! i)"
  proof (intro allI impI)
    fix i assume i: "i < Suc n"
    show "fst (generate g ((?nx ^^ i) r)) = Inr ((v # xs) ! i)"
    proof (cases i)
      case 0
      then show ?thesis using v by simp
    next
      case (Suc j)
      then have "j < n" using i by simp
      with xs(3) have "fst (generate g ((?nx ^^ j) (?nx r))) = Inr (xs ! j)" by blast
      then show ?thesis using Suc by (simp add: funpow_swap1)
    qed
  qed
  show ?case using 1 2 xs(2) by (intro exI[of _ "v # xs"]) simp
qed

lemma array_length:
  assumes "pow_accurate pw" "unit_sample p"
  shows "\<exists>n<100. Math_floor (js_mul (Fin 100) (pw (Fin p) (Fin 30))) = Fin (real n)"
proof -
  from pow30_bounds[OF assms] obtain w where w: "pw (Fin p) (Fin 30) = Fin w"
    "0 \<le> w" "w \<le> 1 - 1 / 2 ^ 53" by blast
  have lo: "0 \<le> 100 * w" using w(2) by simp
  have hi: "100 * w \<le> 100 * (1 - 1 / 2 ^ 53)" using w(3) by (intro mult_left_mono) auto
  from to_number_within[OF lo hi rnd_zero rnd_100_top]
  have m: "to_number (100 * w) = Fin (rnd (100 * w))"
    and b: "0 \<le> rnd (100 * w)" "rnd (100 * w) \<le> 100 - 1 / 2 ^ 46" by auto
  let ?f = "\<lfloor>rnd (100 * w)\<rfloor>"
  have f0: "0 \<le> ?f" using b(1) by simp
  have "rnd (100 * w) < 100" using b(2) by simp
  then have "?f < 100" by (simp add: floor_less_iff)
  then have n: "nat ?f < 100" using f0 by linarith
  have "Math_floor (js_mul (Fin 100) (pw (Fin p) (Fin 30))) = Fin (of_int ?f)"
    by (simp only: w(1) js_arith_Fin m Math_floor_def number.case)
  also have "of_int ?f = real (nat ?f)" using f0 by simp
  finally show ?thesis using n by blast
qed

lemma array_length_zero:
  assumes "pow_accurate pw"
  shows "Math_floor (js_mul (Fin 100) (pw (Fin 0) (Fin 30))) = Fin 0"
proof -
  have u: "unit_sample 0" by (rule unit_sample_intro[OF rnd_zero]) simp_all
  from pow30_bounds[OF assms u] obtain w where w: "pw (Fin 0) (Fin 30) = Fin w"
    "0 \<le> w" "w \<le> 0 ^ 30 + 2 * ulp (0 ^ 30)" by blast
  have "(2::real) powi (- 1074) \<le> 2 powi (- 9)" by (intro power_int_increasing) auto
  also have "\<dots> = 1 / 512" by (simp add: power_int_minus_divide)
  finally have "ulp 0 \<le> 1 / 512" by (simp only: ulp_def refl if_True)
  moreover have "w \<le> 2 * ulp 0" using w(3) by simp
  ultimately have ws: "w \<le> 1 / 256" by linarith
  have lo: "0 \<le> 100 * w" using w(2) by simp
  have hi: "100 * w \<le> 1/2" using ws by simp
  from to_number_within[OF lo hi rnd_zero rnd_samples(1)]
  have m: "to_number (100 * w) = Fin (rnd (100 * w))"
    and b: "0 \<le> rnd (100 * w)" "rnd (100 * w) \<le> 1/2" by auto
  have "\<lfloor>rnd (100 * w)\<rfloor> = 0" using b by (simp add: floor_eq_iff)
  then show ?thesis
    by (simp only: w(1) js_arith_Fin m Math_floor_def number.case of_int_0)
qed

text \<open>
  C7. Let the engine's \<open>**\<close> be accurate in the sense of \<open>pow_accurate\<close>. For every sample
  \<open>p\<close> that \<open>Math.random()\<close> may return and every element fuzzer \<open>g\<close> that does not throw
  on the first hundred states it is generated from, a generation from \<open>array(g)\<close>
  returns a list whose length is \<open>floor(100 * p ** 30)\<close> and below 100; slot \<open>i\<close> holds
  the value of a generation from \<open>g\<close> of its own, started from the source as the
  generations for the slots before it left it. For \<open>p = 0\<close> the list is empty.
\<close>

theorem array_length_and_elements:
  assumes "pow_accurate pw" and "unit_sample p"
    and "\<forall>i<100. \<exists>v. fst (generate g ((after (generate g) ^^ i) r)) = Inr v"
  shows "(\<exists>xs. generator (Fuzzer_array pw g) (Fin p) r
                  = (Inr xs, (after (generate g) ^^ length xs) r) \<and>
               Math_floor (js_mul (Fin 100) (pw (Fin p) (Fin 30))) = Fin (real (length xs)) \<and>
               length xs < 100 \<and>
               (\<forall>i<length xs. fst (generate g ((after (generate g) ^^ i) r)) = Inr (xs ! i))) \<and>
         generator (Fuzzer_array pw g) (Fin 0) r = (Inr [], r)"
proof -
  from array_length[OF assms(1,2)] obtain n where n: "n < 100"
    "Math_floor (js_mul (Fin 100) (pw (Fin p) (Fin 30))) = Fin (real n)" by blast
  have "\<forall>i<n. \<exists>v. fst (generate g ((after (generate g) ^^ i) r)) = Inr v"
    using assms(3) n(1) by auto
  from Array_map_generate[OF this] obtain xs where xs:
    "Array_map (replicate n ()) (\<lambda>_. generate g) r = (Inr xs, (after (generate g) ^^ n) r)"
    "length xs = n"
    "\<forall>i<n. fst (generate g ((after (generate g) ^^ i) r)) = Inr (xs ! i)" by blast
  have "generator (Fuzzer_array pw g) (Fin p) r = (Inr xs, (after (generate g) ^^ length xs) r)"
    by (simp add: Fuzzer_array_def Let_def n(2) andThenC_def Array_fill_null_nat[OF n(1)] xs(1,2))
  then have A: "\<exists>xs. generator (Fuzzer_array pw g) (Fin p) r
                  = (Inr xs, (after (generate g) ^^ length xs) r) \<and>
               Math_floor (js_mul (Fin 100) (pw (Fin p) (Fin 30))) = Fin (real (length xs)) \<and>
               length xs < 100 \<and>
               (\<forall>i<length xs. fst (generate g ((after (generate g) ^^ i) r)) = Inr (xs ! i))"
    using n xs(2,3) by blast
  have "Math_floor (js_mul (Fin 100) (pw (Fin 0) (Fin 30))) = Fin (real 0)"
    using array_length_zero[OF assms(1)] by simp
  then have B: "generator (Fuzzer_array pw g) (Fin 0) r = (Inr [], r)"
    using Array_fill_null_nat[of 0 r]
    by (simp add: Fuzzer_array_def Let_def andThenC_def ret_def)
  show ?thesis using A B by blast
qed

text \<open>With the correctly rounded power for \<open>**\<close> and \<open>p = 15/16\<close> the length is 14.\<close>

theorem array_length_and_elements_witness:
  "pow_accurate rounded_pow \<and> unit_sample (15/16) \<and>
   (\<exists>xs. generator (Fuzzer_array rounded_pow (Fuzzer_intRange (Fin 0) (Fin 9))) (Fin (15/16))
             \<lparr>samples = \<lambda>n. real n / 16, drawn = 0\<rparr>
           = (Inr xs, (after (generate (Fuzzer_intRange (Fin 0) (Fin 9))) ^^ length xs)
                        \<lparr>samples = \<lambda>n. real n / 16, drawn = 0\<rparr>) \<and>
          length xs = 14 \<and>
          (\<forall>i<length xs. fst (generate (Fuzzer_intRange (Fin 0) (Fin 9))
               ((after (generate (Fuzzer_intRange (Fin 0) (Fin 9))) ^^ i)
                  \<lparr>samples = \<lambda>n. real n / 16, drawn = 0\<rparr>)) = Inr (xs ! i)))"
proof -
  have u: "unit_sample (15/16)" by (rule unit_sample_intro[OF rnd_fifteen_sixteenths]) simp_all
  have "to_number ((15/16) ^ 30) = Fin (5197422874917239 / 2 ^ 55)"
    by (rule to_number_eval[OF array_witness_steps(1)]) simp
  then have 1: "rounded_pow (Fin (15/16)) (Fin 30) = Fin (5197422874917239 / 2 ^ 55)"
    by (simp only: rounded_pow_nat[of "15/16" 30, simplified])
  have 2: "js_mul (Fin 100) (Fin (5197422874917239 / 2 ^ 55)) = Fin (4060486621029093 / 2 ^ 48)"
    unfolding js_arith_Fin by (rule to_number_eval[OF array_witness_steps(2)]) simp
  have "\<lfloor>4060486621029093 / 2 ^ 48 :: real\<rfloor> = 14" by (simp add: floor_eq_iff)
  then have 3: "Math_floor (Fin (4060486621029093 / 2 ^ 48)) = Fin 14"
    by (simp add: Math_floor_def)
  have len: "Math_floor (js_mul (Fin 100) (rounded_pow (Fin (15/16)) (Fin 30))) = Fin 14"
    by (simp only: 1 2 3)
  show ?thesis
    using u rounded_pow_accurate intRange_never_throws
      array_length_and_elements[where pw = rounded_pow and p = "15/16"
        and g = "Fuzzer_intRange (Fin 0) (Fin 9)"
        and r = "\<lparr>samples = \<lambda>n. real n / 16, drawn = 0\<rparr>"]
    unfolding len by auto
qed

subsection \<open>Strings\<close>

lemma intRange_ascii_args:
  "js_sub (js_add (Fin 126) (Fin 1)) (Fin 32) = Fin 95"
proof -
  have "rnd (126 + 1) = 127" using rnd_ascii(2) by simp
  then have "js_add (Fin 126) (Fin 1) = Fin 127"
    unfolding js_arith_Fin by (rule to_number_eval) simp
  moreover have "rnd (127 - 32) = 95" using rnd_ascii(3) by simp
  then have "js_sub (Fin 127) (Fin 32) = Fin 95"
    unfolding js_arith_Fin by (rule to_number_eval) simp
  ultimately show ?thesis by simp
qed

lemma intRange_ascii_value:
  assumes "unit_sample q"
  shows "\<exists>c. generator (Fuzzer_intRange (Fin 32) (Fin 126)) (Fin q) r = (Inr (Fin (real c)), r) \<and>
             32 \<le> c \<and> c \<le> 126 \<and> fromCharCode (Fin (real c)) = [c]"
proof -
  from unit_sampleD[OF assms] have q: "0 \<le> q" "q \<le> 1 - 1 / 2 ^ 53" by auto
  have lo: "0 \<le> q * 95" using q(1) by simp
  have "q * 95 \<le> (1 - 1 / 2 ^ 53) * 95" using q(2) by (intro mult_right_mono) auto
  then have hi: "q * 95 \<le> 95 * (1 - 1 / 2 ^ 53)" by (simp only: mult.commute)
  from to_number_within[OF lo hi rnd_zero rnd_95_top]
  have m: "to_number (q * 95) = Fin (rnd (q * 95))"
    and b: "0 \<le> rnd (q * 95)" "rnd (q * 95) \<le> 95 - 1 / 2 ^ 46" by auto
  let ?a = "rnd (q * 95)"
  have lo2: "32 \<le> ?a + 32" using b(1) by simp
  have hi2: "?a + 32 \<le> 127 - 1 / 2 ^ 46" using b(2) by simp
  from to_number_within[OF lo2 hi2 rnd_ascii(1) rnd_127_top]
  have m2: "to_number (?a + 32) = Fin (rnd (?a + 32))"
    and b2: "32 \<le> rnd (?a + 32)" "rnd (?a + 32) \<le> 127 - 1 / 2 ^ 46" by auto
  let ?f = "\<lfloor>rnd (?a + 32)\<rfloor>"
  have f1: "32 \<le> ?f" using b2(1) by (simp add: le_floor_iff)
  have "rnd (?a + 32) < 127" using b2(2) by simp
  then have "?f < 127" by (simp add: floor_less_iff)
  then have f2: "?f \<le> 126" by simp
  have g: "generator (Fuzzer_intRange (Fin 32) (Fin 126)) (Fin q) r = (Inr (Fin (of_int ?f)), r)"
    unfolding generator_intRange intRange_ascii_args
    by (simp only: js_arith_Fin m m2 Math_floor_def number.case)
  have c: "of_int ?f = real (nat ?f)" using f1 by simp
  have "fromCharCode (Fin (real (nat ?f))) = [nat (int (nat ?f) mod 65536)]"
    by (simp add: fromCharCode_def)
  also have "int (nat ?f) mod 65536 = ?f" using f1 f2 by simp
  finally have "fromCharCode (Fin (real (nat ?f))) = [nat ?f]" .
  moreover have "32 \<le> nat ?f" "nat ?f \<le> 126" using f1 f2 by linarith+
  ultimately show ?thesis using g c by (intro exI[of _ "nat ?f"]) simp
qed

lemma string_chars:
  assumes "\<forall>k. unit_sample (samples r k)"
  shows "\<exists>cs. Array_map (replicate n ()) (\<lambda>_.
             andThenC (generate (Fuzzer_intRange (Fin 32) (Fin 126))) (\<lambda>char.
             ret (fromCharCode char))) r
           = (Inr (map (\<lambda>c. [c]) cs), r\<lparr>drawn := drawn r + n\<rparr>) \<and>
         length cs = n \<and>
         (\<forall>i<n. 32 \<le> cs ! i \<and> cs ! i \<le> 126 \<and>
            fst (generate (Fuzzer_intRange (Fin 32) (Fin 126)) (r\<lparr>drawn := drawn r + i\<rparr>))
              = Inr (Fin (real (cs ! i))))"
  using assms
proof (induction n arbitrary: r)
  case 0
  then show ?case by (simp add: ret_def)
next
  case (Suc n)
  let ?G = "Fuzzer_intRange (Fin 32) (Fin 126)"
  let ?r1 = "r\<lparr>drawn := Suc (drawn r)\<rparr>"
  have "unit_sample (samples r (drawn r))" using Suc.prems by blast
  from intRange_ascii_value[OF this, of ?r1] obtain c where c:
    "generator ?G (Fin (samples r (drawn r))) ?r1 = (Inr (Fin (real c)), ?r1)"
    "32 \<le> c" "c \<le> 126" "fromCharCode (Fin (real c)) = [c]" by blast
  then have g: "generate ?G r = (Inr (Fin (real c)), ?r1)" by (simp add: generate_unfold)
  have "\<forall>k. unit_sample (samples ?r1 k)" using Suc.prems by simp
  from Suc.IH[OF this] obtain cs where cs:
    "Array_map (replicate n ()) (\<lambda>_.
             andThenC (generate ?G) (\<lambda>char. ret (fromCharCode char))) ?r1
           = (Inr (map (\<lambda>c. [c]) cs), ?r1\<lparr>drawn := drawn ?r1 + n\<rparr>)"
    "length cs = n"
    "\<forall>i<n. 32 \<le> cs ! i \<and> cs ! i \<le> 126 \<and>
        fst (generate ?G (?r1\<lparr>drawn := drawn ?r1 + i\<rparr>)) = Inr (Fin (real (cs ! i)))"
    by blast
  have 1: "Array_map (replicate (Suc n) ()) (\<lambda>_.
             andThenC (generate ?G) (\<lambda>char. ret (fromCharCode char))) r
           = (Inr (map (\<lambda>c. [c]) (c # cs)), r\<lparr>drawn := drawn r + Suc n\<rparr>)"
    by (simp add: andThenC_def g cs(1) ret_def c(4))
  have 2: "\<forall>i<Suc n. 32 \<le> (c # cs) ! i \<and> (c # cs) ! i \<le> 126 \<and>
            fst (generate ?G (r\<lparr>drawn := drawn r + i\<rparr>)) = Inr (Fin (real ((c # cs) ! i)))"
  proof (intro allI impI)
    fix i assume i: "i < Suc n"
    show "32 \<le> (c # cs) ! i \<and> (c # cs) ! i \<le> 126 \<and>
            fst (generate ?G (r\<lparr>drawn := drawn r + i\<rparr>)) = Inr (Fin (real ((c # cs) ! i)))"
    proof (cases i)
      case 0
      then show ?thesis using c(2,3) g by simp
    next
      case (Suc j)
      then have "j < n" using i by simp
      with cs(3) have "32 \<le> cs ! j \<and> cs ! j \<le> 126 \<and>
        fst (generate ?G (?r1\<lparr>drawn := drawn ?r1 + j\<rparr>)) = Inr (Fin (real (cs ! j)))" by blast
      then show ?thesis using Suc by simp
    qed
  qed
  show ?case using 1 2 cs(2) by (intro exI[of _ "c # cs"]) simp
qed

lemma string_length:
  assumes "unit_sample p"
  shows "\<exists>n<100. Math_floor (js_mul (Fin 100) (Fin p)) = Fin (real n)"
proof -
  from unit_sampleD[OF assms] have p: "0 \<le> p" "p \<le> 1 - 1 / 2 ^ 53" by auto
  have lo: "0 \<le> 100 * p" using p(1) by simp
  have hi: "100 * p \<le> 100 * (1 - 1 / 2 ^ 53)" using p(2) by (intro mult_left_mono) auto
  from to_number_within[OF lo hi rnd_zero rnd_100_top]
  have m: "to_number (100 * p) = Fin (rnd (100 * p))"
    and b: "0 \<le> rnd (100 * p)" "rnd (100 * p) \<le> 100 - 1 / 2 ^ 46" by auto
  let ?f = "\<lfloor>rnd (100 * p)\<rfloor>"
  have f0: "0 \<le> ?f" using b(1) by simp
  have "rnd (100 * p) < 100" using b(2) by simp
  then have "?f < 100" by (simp add: floor_less_iff)
  then have n: "nat ?f < 100" using f0 by linarith
  have "Math_floor (js_mul (Fin 100) (Fin p)) = Fin (of_int ?f)"
    by (simp only: js_arith_Fin m Math_floor_def number.case)
  also have "of_int ?f = real (nat ?f)" using f0 by simp
  finally show ?thesis using n by blast
qed

text \<open>
  C8. On a source that yields only samples \<open>Math.random()\<close> may return, a generation
  from \<open>string\<close> with sample \<open>p\<close> returns a string whose length is \<open>floor(100 * p)\<close> and
  below 100, draws one further sample per character, and character \<open>i\<close> is the value
  that \<open>intRange(32, 126)\<close> generates from sample \<open>i\<close> of those, a code unit from 32
  to 126.
\<close>

theorem string_length_and_characters:
  assumes "unit_sample p" and "\<forall>k. unit_sample (samples r k)"
  shows "\<exists>s. generator Fuzzer_string (Fin p) r = (Inr s, r\<lparr>drawn := drawn r + length s\<rparr>) \<and>
             Math_floor (js_mul (Fin 100) (Fin p)) = Fin (real (length s)) \<and>
             length s < 100 \<and>
             (\<forall>c\<in>set s. 32 \<le> c \<and> c \<le> 126) \<and>
             (\<forall>i<length s.
                fst (generate (Fuzzer_intRange (Fin 32) (Fin 126)) (r\<lparr>drawn := drawn r + i\<rparr>))
                  = Inr (Fin (real (s ! i))))"
proof -
  from string_length[OF assms(1)] obtain n where n: "n < 100"
    "Math_floor (js_mul (Fin 100) (Fin p)) = Fin (real n)" by blast
  from string_chars[OF assms(2), of n] obtain cs where cs:
    "Array_map (replicate n ()) (\<lambda>_.
             andThenC (generate (Fuzzer_intRange (Fin 32) (Fin 126))) (\<lambda>char.
             ret (fromCharCode char))) r
           = (Inr (map (\<lambda>c. [c]) cs), r\<lparr>drawn := drawn r + n\<rparr>)"
    "length cs = n"
    "\<forall>i<n. 32 \<le> cs ! i \<and> cs ! i \<le> 126 \<and>
        fst (generate (Fuzzer_intRange (Fin 32) (Fin 126)) (r\<lparr>drawn := drawn r + i\<rparr>))
          = Inr (Fin (real (cs ! i)))" by blast
  have j: "join_empty (map (\<lambda>c. [c]) cs) = cs" by (induction cs) (simp_all add: join_empty_def)
  have g: "generator Fuzzer_string (Fin p) r = (Inr cs, r\<lparr>drawn := drawn r + length cs\<rparr>)"
    by (simp add: Fuzzer_string_def Let_def n(2) andThenC_def Array_fill_null_nat[OF n(1)]
        cs(1,2) ret_def j)
  have "\<forall>c\<in>set cs. 32 \<le> c \<and> c \<le> 126"
    using cs(2,3) by (auto simp: in_set_conv_nth)
  then show ?thesis using g n cs(2,3) by (intro exI[of _ cs]) simp
qed

theorem string_length_and_characters_witness:
  "unit_sample (1/4) \<and> (\<forall>k. unit_sample (samples \<lparr>samples = \<lambda>n. 1/2, drawn = 0\<rparr> k)) \<and>
   (\<exists>s. generator Fuzzer_string (Fin (1/4)) \<lparr>samples = \<lambda>n. 1/2, drawn = 0\<rparr>
           = (Inr s, \<lparr>samples = \<lambda>n. 1/2, drawn = length s\<rparr>) \<and>
         length s < 100 \<and> (\<forall>c\<in>set s. 32 \<le> c \<and> c \<le> 126))"
proof -
  have u: "unit_sample (1/4)" "unit_sample (1/2)"
    by (rule unit_sample_intro[OF rnd_samples(2)], simp, simp)
       (rule unit_sample_intro[OF rnd_samples(1)], simp, simp)
  show ?thesis
    using u string_length_and_characters[of "1/4" "\<lparr>samples = \<lambda>n. 1/2, drawn = 0\<rparr>"]
    by auto
qed

section \<open>The test harness\<close>


lemma generate_now_both:
  "andThenC (generate_now (both m n)) k =
   andThenC (generate_now m) (\<lambda>a. andThenC (generate_now n) (\<lambda>b. k (a, b)))"
  by (rule ext)
     (auto simp: andThenC_def generate_now_def both_def ret_def split: prod.splits sum.splits)


lemma fuzzExplained_explained:
  "fuzzExplained sa g desc func =
     explained (generate g) (\<lambda>a. desc @ lit (CHR 0x0A # ''Value #1: '') @ sa a) func"
  "fuzz2Explained sa sb fa fb desc funcB =
     explained (both (generate fa) (generate fb))
       (\<lambda>(a, b). desc @ lit (CHR 0x0A # ''Value #1: '') @ sa a
                       @ lit (CHR 0x0A # ''Value #2: '') @ sb b)
       (\<lambda>(a, b). funcB a b)"
  "fuzz3Explained sa sb sc fa fb fc desc funcC =
     explained (both (generate fa) (both (generate fb) (generate fc)))
       (\<lambda>(a, b, c). desc @ lit (CHR 0x0A # ''Value #1: '') @ sa a
                          @ lit (CHR 0x0A # ''Value #2: '') @ sb b
                          @ lit (CHR 0x0A # ''Value #3: '') @ sc c)
       (\<lambda>(a, b, c). funcC a b c)"
  by (simp_all add: fuzzExplained_def fuzz2Explained_def fuzz3Explained_def explained_def
      generate_now_both)

lemma for_loop_done: "for_loop n n pass s = (Inr (), s)"
  by (simp add: for_loop.simps[of n n])

lemma for_loop_step:
  "i < n \<Longrightarrow> for_loop i n pass s =
     (case pass s of (Inl e, s') \<Rightarrow> (Inl e, s') | (Inr _, s') \<Rightarrow> for_loop (i + 1) n pass s')"
  by (subst for_loop.simps) simp

lemma after_funpow_Suc: "(after G ^^ Suc j) r = (after G ^^ j) (after G r)"
  by (simp add: funpow_swap1)



lemma explained_registers:
  assumes "\<forall>j<length vs. fst (G ((after G ^^ j) r)) = Inr (vs ! j)"
  shows "for_loop i (i + length vs)
           (andThenC (generate_now G) (\<lambda>v. register (name v) (run_check (C v)))) (reg, r)
         = (Inr (), (reg @ map (\<lambda>v. (name v, run_check (C v))) vs, (after G ^^ length vs) r))"
  using assms
proof (induction vs arbitrary: i r reg)
  case Nil
  then show ?case by (simp add: for_loop_done)
next
  case (Cons v vs)
  from Cons.prems have "fst (G ((after G ^^ 0) r)) = Inr ((v # vs) ! 0)" by blast
  then have g: "G r = (Inr v, after G r)" by (cases "G r") (simp add: after_def)
  have h: "\<forall>j<length vs. fst (G ((after G ^^ j) (after G r))) = Inr (vs ! j)"
  proof (intro allI impI)
    fix j assume "j < length vs"
    then have "Suc j < length (v # vs)" by simp
    with Cons.prems have "fst (G ((after G ^^ Suc j) r)) = Inr ((v # vs) ! Suc j)" by blast
    then show "fst (G ((after G ^^ j) (after G r))) = Inr (vs ! j)"
      by (simp only: after_funpow_Suc nth_Cons_Suc)
  qed
  have "for_loop (Suc i) (Suc i + length vs)
           (andThenC (generate_now G) (\<lambda>v. register (name v) (run_check (C v))))
           (reg @ [(name v, run_check (C v))], after G r)
         = (Inr (), ((reg @ [(name v, run_check (C v))])
                       @ map (\<lambda>v. (name v, run_check (C v))) vs,
                     (after G ^^ length vs) (after G r)))"
    using h by (rule Cons.IH)
  moreover have "for_loop i (i + length (v # vs))
           (andThenC (generate_now G) (\<lambda>v. register (name v) (run_check (C v)))) (reg, r)
      = for_loop (Suc i) (Suc i + length vs)
           (andThenC (generate_now G) (\<lambda>v. register (name v) (run_check (C v))))
           (reg @ [(name v, run_check (C v))], after G r)"
    by (simp add: for_loop_step[of i] andThenC_def generate_now_def g register_def test_def)
  ultimately show ?case by (simp add: after_funpow_Suc del: funpow.simps)
qed



text \<open>
  C4. \<open>fuzzExplained\<close>, \<open>fuzz2Explained\<close> and \<open>fuzz3Explained\<close> are the explained loop
  over the generators in argument order, with the values interpolated into the name
  after the description. Let \<open>vs\<close> be the values that 100 repetitions generate from the
  source \<open>r\<close>. The loop adds 100 tests to the registry, the one of repetition \<open>i\<close> named
  by value \<open>i\<close> and with the body that runs the check on that value; when the loop
  returns, the source is as the 100 generations left it. Such a body calls the check
  once, on its value, and leaves the source as it finds it.
\<close>

theorem explained_tests_register_100_units:
  assumes "length vs = 100" and "\<forall>j<100. fst (G ((after G ^^ j) r)) = Inr (vs ! j)"
  shows "fuzzExplained sa g desc func =
           explained (generate g) (\<lambda>a. desc @ lit (CHR 0x0A # ''Value #1: '') @ sa a) func \<and>
         fuzz2Explained sa sb fa fb desc funcB =
           explained (both (generate fa) (generate fb))
             (\<lambda>(a, b). desc @ lit (CHR 0x0A # ''Value #1: '') @ sa a
                             @ lit (CHR 0x0A # ''Value #2: '') @ sb b)
             (\<lambda>(a, b). funcB a b) \<and>
         fuzz3Explained sa sb sc fa fb fc desc funcC =
           explained (both (generate fa) (both (generate fb) (generate fc)))
             (\<lambda>(a, b, c). desc @ lit (CHR 0x0A # ''Value #1: '') @ sa a
                                @ lit (CHR 0x0A # ''Value #2: '') @ sb b
                                @ lit (CHR 0x0A # ''Value #3: '') @ sc c)
             (\<lambda>(a, b, c). funcC a b c) \<and>
         explained G name C (reg, r) =
           (Inr (), (reg @ map (\<lambda>v. (name v, run_check (C v))) vs, (after G ^^ 100) r)) \<and>
         length (map (\<lambda>v. (name v, run_check (C v))) vs) = 100 \<and>
         run_check (logging_check verdict v) (seen, r') =
           ((case verdict v of None \<Rightarrow> Inr () | Some e \<Rightarrow> Inl (CheckThrew e)), (seen @ [v], r'))"
proof -
  have h: "\<forall>j<length vs. fst (G ((after G ^^ j) r)) = Inr (vs ! j)" using assms by simp
  have A: "explained G name C (reg, r) =
           (Inr (), (reg @ map (\<lambda>v. (name v, run_check (C v))) vs, (after G ^^ 100) r))"
    using explained_registers[OF h, of 0 name C reg] assms(1)
    by (simp add: explained_def TEST_PASSES_def)
  have B: "run_check (logging_check verdict v) (seen, r') =
           ((case verdict v of None \<Rightarrow> Inr () | Some e \<Rightarrow> Inl (CheckThrew e)), (seen @ [v], r'))"
    by (simp add: run_check_def logging_check_def split: option.splits)
  show ?thesis using A B assms(1) by (simp add: fuzzExplained_explained)
qed

theorem explained_tests_register_100_units_witness:
  "fuzzExplained (\<lambda>n. lit (if n = (7::nat) then ''7'' else ''?'')) (Fuzzer_constant 7)
       (lit ''sevens'') (logging_check (\<lambda>v. None :: unit option))
       ([], \<lparr>samples = \<lambda>n. 0, drawn = 0\<rparr>)
     = (Inr (),
        (replicate 100 (lit ''sevens'' @ lit (CHR 0x0A # ''Value #1: '') @ lit ''7'',
                         run_check (logging_check (\<lambda>v. None :: unit option) 7)),
         (after (generate (Fuzzer_constant (7::nat))) ^^ 100) \<lparr>samples = \<lambda>n. 0, drawn = 0\<rparr>))"
proof -
  let ?G = "generate (Fuzzer_constant (7::nat))"
  let ?r = "\<lparr>samples = \<lambda>n. 0, drawn = 0\<rparr>"
  have g: "\<And>s. fst (?G s) = Inr 7"
    by (simp add: generate_def random_def Fuzzer_constant_def ret_def)
  have h1: "length (replicate 100 (7::nat)) = 100" by simp
  have h2: "\<forall>j<100. fst (?G ((after ?G ^^ j) ?r)) = Inr (replicate 100 (7::nat) ! j)"
    by (simp add: g)
  note t = explained_tests_register_100_units[OF h1 h2,
      where sa = "\<lambda>n. lit (if n = (7::nat) then ''7'' else ''?'')" and sb = "\<lambda>n::nat. []"
      and sc = "\<lambda>n::nat. []" and g = "Fuzzer_constant (7::nat)" and desc = "lit ''sevens''"
      and func = "logging_check (\<lambda>v. None :: unit option)"
      and fa = "Fuzzer_constant (7::nat)" and fb = "Fuzzer_constant (7::nat)"
      and fc = "Fuzzer_constant (7::nat)"
      and funcB = "\<lambda>a b. logging_check (\<lambda>v. None :: unit option) (a::nat)"
      and funcC = "\<lambda>a b c. logging_check (\<lambda>v. None :: unit option) (a::nat)"
      and name = "\<lambda>a. lit ''sevens'' @ lit (CHR 0x0A # ''Value #1: '')
                      @ lit (if a = (7::nat) then ''7'' else ''?'')"
      and C = "logging_check (\<lambda>v. None :: unit option)" and reg = "[]"
      and verdict = "\<lambda>v. None :: unit option" and v = "7::nat" and seen = "[]" and r' = ?r]
  from t show ?thesis by (simp del: replicate.simps funpow.simps)
qed

end
